theory Spec2Isabelle
  imports Main "HOL-Library.Word"
begin

section \<open>Solidity values and failures\<close>

text \<open>
  The contracts of \<^verbatim>\<open>src/contracts/ElectionFactory.sol\<close> are compiled with
  \<^verbatim>\<open>pragma solidity ^0.8.20\<close>: \<^verbatim>\<open>uint256\<close> is a 256-bit word whose \<^verbatim>\<open>+=\<close> is checked
  (an overflow aborts the call with a panic), an \<^verbatim>\<open>address\<close> is a 160-bit word, and a
  \<^verbatim>\<open>require\<close> that fails aborts the call with its reason string. An aborted call leaves
  the storage of the contract as it was before the call.

  Events are not modelled, and neither are gas and memory limits. The failures are named
  by the reason strings of the contract: "Only admin" is the access failure; "Invalid
  phase", "Already started", "Must be in registration" and "Must be in voting" are the
  phase failures; "Registration window closed" and "Voting window closed" the window
  failures; "Name required", "No candidates", "Already registered", "Not registered
  voter", "Already voted" and "Invalid candidate" the remaining ones.
\<close>

type_synonym uint256 = "256 word"
type_synonym address = "160 word"

datatype error = Revert string | Panic

definition checked_add :: "uint256 \<Rightarrow> uint256 \<Rightarrow> error + uint256" where
  "checked_add a b = (if unat a + unat b < 2 ^ 256 then Inr (a + b) else Inl Panic)"

definition checked_sub :: "uint256 \<Rightarrow> uint256 \<Rightarrow> error + uint256" where
  "checked_sub a b = (if b \<le> a then Inr (a - b) else Inl Panic)"

text \<open>What a call sees of its transaction: \<^verbatim>\<open>msg.sender\<close> and \<^verbatim>\<open>block.timestamp\<close>.\<close>

record tx_env =
  msg_sender :: address
  block_timestamp :: uint256

section \<open>The Election contract\<close>

datatype Phase = Created | Registration | Voting | Ended

record Candidate =
  id_c :: uint256
  name :: string
  voteCount :: uint256

text \<open>The value a Solidity mapping holds at a key that was never written.\<close>

definition zero_Candidate :: Candidate where
  "zero_Candidate = \<lparr>id_c = 0, name = [], voteCount = 0\<rparr>"

record Election =
  admin :: address
  title :: string
  description :: string
  phase :: Phase
  registrationStart :: uint256
  registrationEnd :: uint256
  votingStart :: uint256
  votingEnd :: uint256
  candidatesCount :: uint256
  candidates :: "uint256 \<Rightarrow> Candidate"
  isRegisteredVoter :: "address \<Rightarrow> bool"
  hasVoted :: "address \<Rightarrow> bool"

text \<open>The constructor; both additions are checked.\<close>

definition constructor_Election ::
  "tx_env \<Rightarrow> address \<Rightarrow> string \<Rightarrow> string \<Rightarrow> uint256 \<Rightarrow> uint256 \<Rightarrow> error + Election" where
  "constructor_Election env admin' title' description' registrationDuration votingDuration =
     (let rs = block_timestamp env in
      case checked_add rs registrationDuration of
        Inl e \<Rightarrow> Inl e
      | Inr re \<Rightarrow>
          (case checked_add re votingDuration of
             Inl e \<Rightarrow> Inl e
           | Inr ve \<Rightarrow>
               Inr \<lparr>admin = admin', title = title', description = description',
                    phase = Created,
                    registrationStart = rs, registrationEnd = re,
                    votingStart = re, votingEnd = ve,
                    candidatesCount = 0, candidates = (\<lambda>_. zero_Candidate),
                    isRegisteredVoter = (\<lambda>_. False), hasVoted = (\<lambda>_. False)\<rparr>))"

subsection \<open>Admin functions\<close>

text \<open>Modifiers run in the order they are written: \<^verbatim>\<open>onlyAdmin\<close>, then \<^verbatim>\<open>inPhase\<close>.\<close>

definition addCandidate :: "tx_env \<Rightarrow> string \<Rightarrow> Election \<Rightarrow> error + Election" where
  "addCandidate env name' s =
     (if msg_sender env \<noteq> admin s then Inl (Revert ''Only admin'')
      else if phase s \<noteq> Created then Inl (Revert ''Invalid phase'')
      else if \<not> length name' > 0 then Inl (Revert ''Name required'')
      else case checked_add (candidatesCount s) 1 of
             Inl e \<Rightarrow> Inl e
           | Inr n \<Rightarrow>
               Inr (s\<lparr>candidatesCount := n,
                       candidates := (candidates s)
                         (n := \<lparr>id_c = n, name = name', voteCount = 0\<rparr>)\<rparr>))"

definition startRegistration :: "tx_env \<Rightarrow> Election \<Rightarrow> error + Election" where
  "startRegistration env s =
     (if msg_sender env \<noteq> admin s then Inl (Revert ''Only admin'')
      else if phase s \<noteq> Created then Inl (Revert ''Already started'')
      else Inr (s\<lparr>phase := Registration\<rparr>))"

definition startVoting :: "tx_env \<Rightarrow> Election \<Rightarrow> error + Election" where
  "startVoting env s =
     (if msg_sender env \<noteq> admin s then Inl (Revert ''Only admin'')
      else if phase s \<noteq> Registration then Inl (Revert ''Must be in registration'')
      else if \<not> candidatesCount s > 0 then Inl (Revert ''No candidates'')
      else Inr (s\<lparr>phase := Voting\<rparr>))"

definition endElection :: "tx_env \<Rightarrow> Election \<Rightarrow> error + Election" where
  "endElection env s =
     (if msg_sender env \<noteq> admin s then Inl (Revert ''Only admin'')
      else if phase s \<noteq> Voting then Inl (Revert ''Must be in voting'')
      else Inr (s\<lparr>phase := Ended\<rparr>))"

subsection \<open>Voter management and voting\<close>

definition registerVoter :: "tx_env \<Rightarrow> Election \<Rightarrow> error + Election" where
  "registerVoter env s =
     (if phase s \<noteq> Registration then Inl (Revert ''Invalid phase'')
      else if \<not> (block_timestamp env \<ge> registrationStart s
                 \<and> block_timestamp env \<le> registrationEnd s)
        then Inl (Revert ''Registration window closed'')
      else if isRegisteredVoter s (msg_sender env) then Inl (Revert ''Already registered'')
      else Inr (s\<lparr>isRegisteredVoter := (isRegisteredVoter s)(msg_sender env := True)\<rparr>))"

text \<open>
  \<^verbatim>\<open>vote\<close> writes \<^verbatim>\<open>hasVoted\<close> and then increments the tally; the increment is
  checked, and when it panics the whole call is undone, the flag included.
\<close>

definition vote :: "tx_env \<Rightarrow> uint256 \<Rightarrow> Election \<Rightarrow> error + Election" where
  "vote env candidateId s =
     (if phase s \<noteq> Voting then Inl (Revert ''Invalid phase'')
      else if \<not> (block_timestamp env \<ge> votingStart s \<and> block_timestamp env \<le> votingEnd s)
        then Inl (Revert ''Voting window closed'')
      else if \<not> isRegisteredVoter s (msg_sender env) then Inl (Revert ''Not registered voter'')
      else if hasVoted s (msg_sender env) then Inl (Revert ''Already voted'')
      else if \<not> (candidateId > 0 \<and> candidateId \<le> candidatesCount s)
        then Inl (Revert ''Invalid candidate'')
      else
        (let s1 = s\<lparr>hasVoted := (hasVoted s)(msg_sender env := True)\<rparr> in
         case checked_add (voteCount (candidates s1 candidateId)) 1 of
           Inl e \<Rightarrow> Inl e
         | Inr n \<Rightarrow>
             Inr (s1\<lparr>candidates := (candidates s1)
                        (candidateId := (candidates s1 candidateId)\<lparr>voteCount := n\<rparr>)\<rparr>)))"

subsection \<open>Read helpers\<close>

definition getCandidate :: "Election \<Rightarrow> uint256 \<Rightarrow> error + Candidate" where
  "getCandidate s i = Inr (candidates s i)"

text \<open>
  The loop of \<^verbatim>\<open>getAllCandidates\<close>: \<^verbatim>\<open>i - 1\<close> and \<^verbatim>\<open>i++\<close> are checked, and so is
  the index into the memory array.
\<close>

function getAllCandidates_loop ::
  "Election \<Rightarrow> uint256 \<Rightarrow> Candidate list \<Rightarrow> error + Candidate list" where
  "getAllCandidates_loop s i list =
     (if i \<le> candidatesCount s then
        (case checked_sub i 1 of
           Inl e \<Rightarrow> Inl e
         | Inr j \<Rightarrow>
             if \<not> unat j < length list then Inl Panic
             else
               (case checked_add i 1 of
                  Inl e \<Rightarrow> Inl e
                | Inr i' \<Rightarrow> getAllCandidates_loop s i' (list[unat j := candidates s i])))
      else Inr list)"
  by pat_completeness auto
termination
proof (relation "measure (\<lambda>(s, i, list). Suc (unat (candidatesCount s)) - unat i)")
  show "wf (measure (\<lambda>(s, i, list). Suc (unat (candidatesCount s)) - unat i))"
    by simp
next
  fix s :: Election and i :: uint256 and list :: "Candidate list" and j :: uint256
    and i' :: uint256
  assume le: "i \<le> candidatesCount s" and add: "checked_add i 1 = Inr i'"
  from add have "unat i' = unat i + 1"
    by (auto simp: checked_add_def unat_word_ariths split: if_splits)
  moreover from le have "unat i \<le> unat (candidatesCount s)"
    by (simp add: word_le_nat_alt)
  ultimately show "((s, i', list[unat j := candidates s i]), (s, i, list))
      \<in> measure (\<lambda>(s, i, list). Suc (unat (candidatesCount s)) - unat i)"
    by simp
qed

definition getAllCandidates :: "Election \<Rightarrow> error + Candidate list" where
  "getAllCandidates s =
     getAllCandidates_loop s 1 (replicate (unat (candidatesCount s)) zero_Candidate)"

definition getPhase :: "Election \<Rightarrow> Phase" where
  "getPhase s = phase s"

definition getTimeWindows :: "Election \<Rightarrow> uint256 \<times> uint256 \<times> uint256 \<times> uint256" where
  "getTimeWindows s = (registrationStart s, registrationEnd s, votingStart s, votingEnd s)"

section \<open>The ElectionFactory contract\<close>

record ElectionFactory =
  electionCount :: uint256
  elections :: "uint256 \<Rightarrow> address"

text \<open>
  \<^verbatim>\<open>new Election(...)\<close> deploys the election at an address the chain computes; it is
  the parameter \<open>deployed\<close> here. The result is the returned pair, the factory's new
  storage and the storage of the deployed election.
\<close>

definition createElection ::
  "tx_env \<Rightarrow> string \<Rightarrow> string \<Rightarrow> uint256 \<Rightarrow> uint256 \<Rightarrow> address \<Rightarrow> ElectionFactory
     \<Rightarrow> error + ((uint256 \<times> address) \<times> ElectionFactory \<times> Election)" where
  "createElection env title' description' registrationDuration votingDuration deployed f =
     (case constructor_Election env (msg_sender env) title' description'
             registrationDuration votingDuration of
        Inl e \<Rightarrow> Inl e
      | Inr election \<Rightarrow>
          (case checked_add (electionCount f) 1 of
             Inl e \<Rightarrow> Inl e
           | Inr n \<Rightarrow>
               Inr ((n, deployed),
                    f\<lparr>electionCount := n, elections := (elections f)(n := deployed)\<rparr>,
                    election)))"

definition getElectionAddress :: "ElectionFactory \<Rightarrow> uint256 \<Rightarrow> address" where
  "getElectionAddress f i = elections f i"

text \<open>The factory's storage after a \<^verbatim>\<open>createElection\<close> transaction; an aborted one changes nothing.\<close>

definition createElection_storage ::
  "tx_env \<Rightarrow> string \<Rightarrow> string \<Rightarrow> uint256 \<Rightarrow> uint256 \<Rightarrow> address \<Rightarrow> ElectionFactory
     \<Rightarrow> ElectionFactory" where
  "createElection_storage env title' description' registrationDuration votingDuration deployed f =
     (case createElection env title' description' registrationDuration votingDuration deployed f of
        Inl e \<Rightarrow> f
      | Inr (r, f', election) \<Rightarrow> f')"

text \<open>A factory that has created nothing yet: all of its storage is zero.\<close>

definition initial_factory :: ElectionFactory where
  "initial_factory = \<lparr>electionCount = 0, elections = (\<lambda>_. 0)\<rparr>"

section \<open>Sequences of transactions\<close>

datatype call =
    AddCandidate string
  | StartRegistration
  | StartVoting
  | EndElection
  | RegisterVoter
  | Vote uint256

fun dispatch :: "tx_env \<Rightarrow> call \<Rightarrow> Election \<Rightarrow> error + Election" where
  "dispatch env (AddCandidate n) s = addCandidate env n s"
| "dispatch env StartRegistration s = startRegistration env s"
| "dispatch env StartVoting s = startVoting env s"
| "dispatch env EndElection s = endElection env s"
| "dispatch env RegisterVoter s = registerVoter env s"
| "dispatch env (Vote c) s = vote env c s"

text \<open>
  A transaction that aborts leaves the storage unchanged. \<open>run\<close> applies a list of
  transactions in order; \<open>history\<close> keeps those that succeeded, in order.
\<close>

fun run :: "(tx_env \<times> call) list \<Rightarrow> Election \<Rightarrow> Election" where
  "run [] s = s"
| "run (t # ts) s =
     (case dispatch (fst t) (snd t) s of Inl e \<Rightarrow> run ts s | Inr s' \<Rightarrow> run ts s')"

fun history :: "(tx_env \<times> call) list \<Rightarrow> Election \<Rightarrow> (tx_env \<times> call) list" where
  "history [] s = []"
| "history (t # ts) s =
     (case dispatch (fst t) (snd t) s of
        Inl e \<Rightarrow> history ts s
      | Inr s' \<Rightarrow> t # history ts s')"

text \<open>The states an election can be in: what its constructor builds, then any transactions.\<close>

definition reachable :: "Election \<Rightarrow> bool" where
  "reachable s \<longleftrightarrow>
     (\<exists>env a t d rd vd s0 txs. constructor_Election env a t d rd vd = Inr s0 \<and> s = run txs s0)"

text \<open>A Solidity enum value is its position in the declaration.\<close>

fun phase_index :: "Phase \<Rightarrow> nat" where
  "phase_index Created = 0"
| "phase_index Registration = 1"
| "phase_index Voting = 2"
| "phase_index Ended = 3"

text \<open>The senders of the successful \<^verbatim>\<open>vote(k)\<close> calls of a history, in order.\<close>

definition voters_for :: "(tx_env \<times> call) list \<Rightarrow> uint256 \<Rightarrow> address list" where
  "voters_for h k = map (\<lambda>t. msg_sender (fst t)) (filter (\<lambda>t. snd t = Vote k) h)"

fun is_Vote :: "call \<Rightarrow> bool" where
  "is_Vote (Vote k) = True"
| "is_Vote _ = False"

text \<open>
  Well-formed candidate storage: the record under an id from 1 to \<^verbatim>\<open>candidatesCount\<close>
  carries that id, and every other key of the mapping was never written.
\<close>

definition candidates_wf :: "Election \<Rightarrow> bool" where
  "candidates_wf s \<longleftrightarrow>
     (\<forall>k. if 1 \<le> k \<and> k \<le> candidatesCount s
          then id_c (candidates s k) = k
          else candidates s k = zero_Candidate)"

text \<open>
  What \<^verbatim>\<open>getAllCandidates\<close> is meant to return: the records under the ids 1, 2, ...,
  \<^verbatim>\<open>candidatesCount\<close>, in this order.
\<close>

definition snapshot :: "Election \<Rightarrow> Candidate list" where
  "snapshot s = map (\<lambda>i. candidates s (of_nat i)) [1..<Suc (unat (candidatesCount s))]"

text \<open>The names passed to the successful \<^verbatim>\<open>addCandidate\<close> calls of a history, in call order.\<close>

fun name_added :: "call \<Rightarrow> string list" where
  "name_added (AddCandidate n) = [n]"
| "name_added _ = []"

definition added_names :: "(tx_env \<times> call) list \<Rightarrow> string list" where
  "added_names h = concat (map (\<lambda>t. name_added (snd t)) h)"

text \<open>The senders of all successful \<^verbatim>\<open>vote\<close> calls of a history, in order.\<close>

definition voters :: "(tx_env \<times> call) list \<Rightarrow> address list" where
  "voters h = map (\<lambda>t. msg_sender (fst t)) (filter (\<lambda>t. is_Vote (snd t)) h)"

subsection \<open>A concrete election\<close>

text \<open>
  An election created at time 0 by account 10 with durations 100 and 200, two candidates,
  and voter 21 registered at time 50; account 22 never registers. \<open>scenario_setup\<close>
  leads from \<open>scenario_created\<close> to \<open>scenario_voting\<close> (through
  \<open>scenario_registration\<close>, before voter 21 registers), and \<open>scenario_rest\<close>,
  with one vote, three transactions that fail and the end of the election, leads on to
  \<open>scenario_voted\<close>.
\<close>

definition tx_at :: "uint256 \<Rightarrow> address \<Rightarrow> tx_env" where
  "tx_at t who = \<lparr>msg_sender = who, block_timestamp = t\<rparr>"

definition scenario_created :: Election where
  "scenario_created =
     \<lparr>admin = 10, title = ''Board'', description = ''Board election'',
      phase = Created,
      registrationStart = 0, registrationEnd = 100,
      votingStart = 100, votingEnd = 300,
      candidatesCount = 0, candidates = (\<lambda>_. zero_Candidate),
      isRegisteredVoter = (\<lambda>_. False), hasVoted = (\<lambda>_. False)\<rparr>"

definition scenario_setup :: "(tx_env \<times> call) list" where
  "scenario_setup =
     [(tx_at 1 10, AddCandidate ''Alice''),
      (tx_at 2 10, AddCandidate ''Bob''),
      (tx_at 3 10, StartRegistration),
      (tx_at 50 21, RegisterVoter),
      (tx_at 60 10, StartVoting)]"

definition scenario_voting :: Election where
  "scenario_voting =
     scenario_created\<lparr>phase := Voting, candidatesCount := 2,
       candidates := (\<lambda>_. zero_Candidate)
          (1 := \<lparr>id_c = 1, name = ''Alice'', voteCount = 0\<rparr>,
           2 := \<lparr>id_c = 2, name = ''Bob'', voteCount = 0\<rparr>),
       isRegisteredVoter := (\<lambda>_. False)(21 := True)\<rparr>"

definition scenario_registration :: Election where
  "scenario_registration =
     scenario_created\<lparr>phase := Registration, candidatesCount := 2,
       candidates := (\<lambda>_. zero_Candidate)
          (1 := \<lparr>id_c = 1, name = ''Alice'', voteCount = 0\<rparr>,
           2 := \<lparr>id_c = 2, name = ''Bob'', voteCount = 0\<rparr>)\<rparr>"

definition scenario_rest :: "(tx_env \<times> call) list" where
  "scenario_rest =
     [(tx_at 150 21, Vote 1),
      (tx_at 160 10, StartVoting),
      (tx_at 170 10, StartRegistration),
      (tx_at 200 10, EndElection),
      (tx_at 210 10, EndElection),
      (tx_at 250 21, Vote 1)]"

definition scenario_voted :: Election where
  "scenario_voted =
     scenario_voting\<lparr>phase := Ended,
       candidates := (\<lambda>_. zero_Candidate)
          (1 := \<lparr>id_c = 1, name = ''Alice'', voteCount = 1\<rparr>,
           2 := \<lparr>id_c = 2, name = ''Bob'', voteCount = 0\<rparr>),
       hasVoted := (\<lambda>_. False)(21 := True)\<rparr>"

definition scenario_one_vote :: "(tx_env \<times> call) list" where
  "scenario_one_vote = scenario_setup @ [(tx_at 150 21, Vote 1)]"

section \<open>Basic facts\<close>

lemmas call_defs = addCandidate_def startRegistration_def startVoting_def endElection_def
  registerVoter_def vote_def

lemma checked_add_Inr: "checked_add a b = Inr c \<Longrightarrow> c = a + b \<and> unat c = unat a + unat b"
  by (auto simp: checked_add_def unat_word_ariths split: if_splits)

lemma unat_uint256_max: "unat (- 1 :: uint256) = 2 ^ 256 - 1"
  by (simp add: unsigned_minus_1_eq_mask mask_eq_exp_minus_1)

lemma checked_add_one_Inr_iff: "checked_add a 1 = Inr c \<longleftrightarrow> a \<noteq> - 1 \<and> c = a + 1"
proof -
  have "unat a + 1 < 2 ^ 256 \<longleftrightarrow> a \<noteq> - 1"
  proof
    assume "unat a + 1 < 2 ^ 256"
    then show "a \<noteq> - 1" using unat_uint256_max by auto
  next
    assume "a \<noteq> - 1"
    then have "unat a \<noteq> unat (- 1 :: uint256)" by (simp add: word_unat_eq_iff)
    moreover have "unat a < 2 ^ 256" using unsigned_less [of a] by simp
    ultimately show "unat a + 1 < 2 ^ 256" using unat_uint256_max by simp
  qed
  then show ?thesis by (auto simp: checked_add_def)
qed

lemma scenario_created_ok:
  "constructor_Election (tx_at 0 10) 10 ''Board'' ''Board election'' 100 200
     = Inr scenario_created"
  by (simp add: constructor_Election_def tx_at_def checked_add_def scenario_created_def)

lemma scenario_setup_run: "run scenario_setup scenario_created = scenario_voting"
  by (simp add: scenario_setup_def scenario_created_def scenario_voting_def tx_at_def
      call_defs checked_add_def)

lemma reachable_init:
  "constructor_Election env a t d rd vd = Inr s0 \<Longrightarrow> reachable s0"
  unfolding reachable_def by (metis run.simps(1))

lemma run_append: "run (xs @ ys) s = run ys (run xs s)"
  by (induction xs arbitrary: s) (auto split: sum.splits)

lemma reachable_run: "reachable s \<Longrightarrow> reachable (run txs s)"
  unfolding reachable_def by (metis run_append)

lemma reachable_scenario_voting: "reachable scenario_voting"
  using reachable_run [OF reachable_init [OF scenario_created_ok], of scenario_setup]
  by (simp add: scenario_setup_run)

lemma one_le_word_iff: "1 \<le> (c :: uint256) \<longleftrightarrow> 0 < c"
  by (simp add: word_le_nat_alt word_less_nat_alt Suc_le_eq)

lemma checked_add_one: "checked_add a 1 = (if a = - 1 then Inl Panic else Inr (a + 1))"
  using checked_add_one_Inr_iff [of a "a + 1"] by (auto simp: checked_add_def)

lemma vote_Inr_iff:
  "vote env c s = Inr s' \<longleftrightarrow>
     phase s = Voting
   \<and> votingStart s \<le> block_timestamp env \<and> block_timestamp env \<le> votingEnd s
   \<and> isRegisteredVoter s (msg_sender env)
   \<and> \<not> hasVoted s (msg_sender env)
   \<and> 1 \<le> c \<and> c \<le> candidatesCount s
   \<and> voteCount (candidates s c) \<noteq> - 1
   \<and> s' = s\<lparr>hasVoted := (hasVoted s)(msg_sender env := True),
             candidates := (candidates s)
               (c := (candidates s c)\<lparr>voteCount := voteCount (candidates s c) + 1\<rparr>)\<rparr>"
  by (auto simp: vote_def Let_def checked_add_one one_le_word_iff)

lemma unat_succ: "(a :: uint256) \<noteq> - 1 \<Longrightarrow> unat (a + 1) = unat a + 1"
  using checked_add_one_Inr_iff [of a "a + 1"] checked_add_Inr [of a 1 "a + 1"] by simp

section \<open>Opening the vote\<close>

text \<open>
  Claim C6. Called by the admin, \<^verbatim>\<open>startVoting\<close> succeeds exactly when the phase is
  Registration and \<^verbatim>\<open>candidatesCount\<close> is positive, and then only moves the phase to
  Voting; it reverts with "Must be in registration" in any other phase and with
  "No candidates" when the count is zero. The block time is never read: the result is
  the same at every time, so the admin may open the vote before \<^verbatim>\<open>registrationEnd\<close>.
\<close>

theorem startVoting_by_admin:
  assumes "msg_sender env = admin s"
  shows "(phase s \<noteq> Registration
            \<longrightarrow> startVoting env s = Inl (Revert ''Must be in registration''))
       \<and> (phase s = Registration \<and> candidatesCount s = 0
            \<longrightarrow> startVoting env s = Inl (Revert ''No candidates''))
       \<and> ((\<exists>s'. startVoting env s = Inr s')
            \<longleftrightarrow> phase s = Registration \<and> 0 < candidatesCount s)
       \<and> (phase s = Registration \<and> 0 < candidatesCount s
            \<longrightarrow> startVoting env s = Inr (s\<lparr>phase := Voting\<rparr>))
       \<and> (\<forall>t. startVoting (env\<lparr>block_timestamp := t\<rparr>) s = startVoting env s)"
  using assms by (auto simp: startVoting_def word_greater_zero_iff)

theorem startVoting_by_admin_witness:
  "msg_sender (tx_at 10 10) = admin (scenario_voting\<lparr>phase := Registration\<rparr>)
   \<and> block_timestamp (tx_at 10 10) < registrationEnd (scenario_voting\<lparr>phase := Registration\<rparr>)
   \<and> candidatesCount (scenario_voting\<lparr>phase := Registration\<rparr>) = 2
   \<and> startVoting (tx_at 10 10) (scenario_voting\<lparr>phase := Registration\<rparr>)
       = Inr scenario_voting
   \<and> startVoting (tx_at 10 10) (scenario_voting\<lparr>phase := Registration, candidatesCount := 0\<rparr>)
       = Inl (Revert ''No candidates'')
   \<and> startVoting (tx_at 10 10) scenario_voting = Inl (Revert ''Must be in registration'')"
  using startVoting_by_admin [of "tx_at 10 10" "scenario_voting\<lparr>phase := Registration\<rparr>"]
    startVoting_by_admin
      [of "tx_at 10 10" "scenario_voting\<lparr>phase := Registration, candidatesCount := 0\<rparr>"]
    startVoting_by_admin [of "tx_at 10 10" scenario_voting]
  by (simp add: scenario_voting_def scenario_created_def tx_at_def)

section \<open>Registering a voter\<close>

lemma registerVoter_Inr_iff:
  "registerVoter env s = Inr s' \<longleftrightarrow>
     phase s = Registration
   \<and> registrationStart s \<le> block_timestamp env \<and> block_timestamp env \<le> registrationEnd s
   \<and> \<not> isRegisteredVoter s (msg_sender env)
   \<and> s' = s\<lparr>isRegisteredVoter := (isRegisteredVoter s)(msg_sender env := True)\<rparr>"
  by (auto simp: registerVoter_def)

lemma dispatch_keeps_registered:
  "dispatch env c s = Inr s' \<Longrightarrow> isRegisteredVoter s v \<Longrightarrow> isRegisteredVoter s' v"
  by (cases c) (auto simp: call_defs Let_def split: if_splits sum.splits)

lemma run_keeps_registered: "isRegisteredVoter s v \<Longrightarrow> isRegisteredVoter (run txs s) v"
proof (induction txs arbitrary: s)
  case Nil
  then show ?case by simp
next
  case (Cons t txs)
  then show ?case
    by (cases "dispatch (fst t) (snd t) s") (auto dest: dispatch_keeps_registered)
qed

text \<open>
  Claim C7. For every caller, \<^verbatim>\<open>registerVoter\<close> succeeds exactly when the phase is
  Registration, the block time lies in the closed interval from \<^verbatim>\<open>registrationStart\<close>
  to \<^verbatim>\<open>registrationEnd\<close> and the caller is not yet registered; otherwise it reverts
  with "Invalid phase", "Registration window closed" or "Already registered", checked in
  that order. A successful call sets the caller's \<^verbatim>\<open>isRegisteredVoter\<close> flag and changes
  nothing else, and no later transaction of any kind clears a flag that is set.
\<close>

theorem registerVoter_guards_and_effect:
  "(phase s \<noteq> Registration \<longrightarrow> registerVoter env s = Inl (Revert ''Invalid phase''))
   \<and> (phase s = Registration
        \<and> \<not> (registrationStart s \<le> block_timestamp env
              \<and> block_timestamp env \<le> registrationEnd s)
      \<longrightarrow> registerVoter env s = Inl (Revert ''Registration window closed''))
   \<and> (phase s = Registration
        \<and> registrationStart s \<le> block_timestamp env
        \<and> block_timestamp env \<le> registrationEnd s
        \<and> isRegisteredVoter s (msg_sender env)
      \<longrightarrow> registerVoter env s = Inl (Revert ''Already registered''))
   \<and> ((\<exists>s'. registerVoter env s = Inr s') \<longleftrightarrow>
          phase s = Registration
        \<and> registrationStart s \<le> block_timestamp env
        \<and> block_timestamp env \<le> registrationEnd s
        \<and> \<not> isRegisteredVoter s (msg_sender env))
   \<and> (\<forall>s'. registerVoter env s = Inr s' \<longrightarrow>
          isRegisteredVoter s' (msg_sender env)
        \<and> s' = s\<lparr>isRegisteredVoter := (isRegisteredVoter s)(msg_sender env := True)\<rparr>)
   \<and> (\<forall>v txs. isRegisteredVoter s v \<longrightarrow> isRegisteredVoter (run txs s) v)"
proof -
  have "\<forall>v txs. isRegisteredVoter s v \<longrightarrow> isRegisteredVoter (run txs s) v"
    by (simp add: run_keeps_registered)
  moreover have "(\<exists>s'. registerVoter env s = Inr s') \<longleftrightarrow>
          phase s = Registration
        \<and> registrationStart s \<le> block_timestamp env
        \<and> block_timestamp env \<le> registrationEnd s
        \<and> \<not> isRegisteredVoter s (msg_sender env)"
    by (simp add: registerVoter_Inr_iff)
  moreover have "\<forall>s'. registerVoter env s = Inr s' \<longrightarrow>
          isRegisteredVoter s' (msg_sender env)
        \<and> s' = s\<lparr>isRegisteredVoter := (isRegisteredVoter s)(msg_sender env := True)\<rparr>"
    by (auto simp: registerVoter_Inr_iff)
  moreover have "phase s \<noteq> Registration \<longrightarrow> registerVoter env s = Inl (Revert ''Invalid phase'')"
    by (simp add: registerVoter_def)
  moreover have "phase s = Registration
        \<and> \<not> (registrationStart s \<le> block_timestamp env
              \<and> block_timestamp env \<le> registrationEnd s)
      \<longrightarrow> registerVoter env s = Inl (Revert ''Registration window closed'')"
    by (simp add: registerVoter_def)
  moreover have "phase s = Registration
        \<and> registrationStart s \<le> block_timestamp env
        \<and> block_timestamp env \<le> registrationEnd s
        \<and> isRegisteredVoter s (msg_sender env)
      \<longrightarrow> registerVoter env s = Inl (Revert ''Already registered'')"
    by (simp add: registerVoter_def)
  ultimately show ?thesis by blast
qed

theorem registerVoter_guards_and_effect_witness:
  "phase scenario_registration = Registration
   \<and> registrationStart scenario_registration \<le> 50
   \<and> 50 \<le> registrationEnd scenario_registration
   \<and> \<not> isRegisteredVoter scenario_registration 21
   \<and> registerVoter (tx_at 50 21) scenario_registration
       = Inr (scenario_registration\<lparr>isRegisteredVoter := (\<lambda>_. False)(21 := True)\<rparr>)
   \<and> registerVoter (tx_at 50 21)
        (scenario_registration\<lparr>isRegisteredVoter := (\<lambda>_. False)(21 := True)\<rparr>)
       = Inl (Revert ''Already registered'')
   \<and> registerVoter (tx_at 101 21) scenario_registration
       = Inl (Revert ''Registration window closed'')
   \<and> registerVoter (tx_at 50 21) scenario_created = Inl (Revert ''Invalid phase'')
   \<and> isRegisteredVoter scenario_voting 21
   \<and> isRegisteredVoter
        (run [(tx_at 150 21, Vote 1), (tx_at 200 10, EndElection)] scenario_voting) 21"
  using registerVoter_guards_and_effect [of scenario_registration "tx_at 50 21"]
    registerVoter_guards_and_effect
      [of "scenario_registration\<lparr>isRegisteredVoter := (\<lambda>_. False)(21 := True)\<rparr>" "tx_at 50 21"]
    registerVoter_guards_and_effect [of scenario_registration "tx_at 101 21"]
    registerVoter_guards_and_effect [of scenario_created "tx_at 50 21"]
    registerVoter_guards_and_effect [of scenario_voting "tx_at 50 21"]
  by (simp add: scenario_registration_def scenario_voting_def scenario_created_def tx_at_def
      call_defs checked_add_def)

section \<open>Creating an election\<close>

lemma checked_add_eq:
  "checked_add a b = (if unat a + unat b < 2 ^ 256 then Inr (a + b) else Inl Panic)"
  by (simp add: checked_add_def)

lemma unat_plus_fits: "unat (a :: uint256) + unat b < 2 ^ 256 \<Longrightarrow> unat (a + b) = unat a + unat b"
  by (simp add: unat_word_ariths)

lemma constructor_Election_eq:
  "constructor_Election env a t d rd vd =
     (if unat (block_timestamp env) + unat rd + unat vd < 2 ^ 256
      then Inr \<lparr>admin = a, title = t, description = d, phase = Created,
           registrationStart = block_timestamp env,
           registrationEnd = block_timestamp env + rd,
           votingStart = block_timestamp env + rd,
           votingEnd = block_timestamp env + rd + vd,
           candidatesCount = 0, candidates = (\<lambda>_. zero_Candidate),
           isRegisteredVoter = (\<lambda>_. False), hasVoted = (\<lambda>_. False)\<rparr>
      else Inl Panic)"
proof (cases "unat (block_timestamp env) + unat rd < 2 ^ 256")
  case True
  then have "unat (block_timestamp env + rd) = unat (block_timestamp env) + unat rd"
    by (rule unat_plus_fits)
  with True show ?thesis
    by (simp add: constructor_Election_def Let_def checked_add_eq del: power_numeral)
next
  case False
  then show ?thesis
    by (simp add: constructor_Election_def Let_def checked_add_eq del: power_numeral)
qed

lemma constructor_Election_Inr_iff:
  "constructor_Election env a t d rd vd = Inr e \<longleftrightarrow>
     unat (block_timestamp env) + unat rd + unat vd < 2 ^ 256
   \<and> e = \<lparr>admin = a, title = t, description = d, phase = Created,
           registrationStart = block_timestamp env,
           registrationEnd = block_timestamp env + rd,
           votingStart = block_timestamp env + rd,
           votingEnd = block_timestamp env + rd + vd,
           candidatesCount = 0, candidates = (\<lambda>_. zero_Candidate),
           isRegisteredVoter = (\<lambda>_. False), hasVoted = (\<lambda>_. False)\<rparr>"
  unfolding constructor_Election_eq by auto

text \<open>
  Claim C5. Every successful creation at block time \<open>now\<close> with durations
  \<open>regDuration\<close> and \<open>votDuration\<close> builds an election in phase Created whose admin is
  the caller of \<^verbatim>\<open>createElection\<close>, with \<open>registrationStart = now\<close>,
  \<open>registrationEnd = now + regDuration\<close>, \<open>votingStart = registrationEnd\<close> and
  \<open>votingEnd = votingStart + votDuration\<close>, the sums being exact (a sum that does not
  fit \<^verbatim>\<open>uint256\<close> aborts the creation). Durations 100 and 200 at time 0 give the
  windows from 0 to 100 and from 100 to 300.
\<close>

theorem creation_sets_windows:
  assumes "createElection env t d rd vd deployed f = Inr (r, f', e)"
  shows "phase e = Created
       \<and> admin e = msg_sender env
       \<and> title e = t \<and> description e = d
       \<and> registrationStart e = block_timestamp env
       \<and> unat (registrationEnd e) = unat (block_timestamp env) + unat rd
       \<and> votingStart e = registrationEnd e
       \<and> unat (votingEnd e) = unat (votingStart e) + unat vd
       \<and> getTimeWindows e
           = (block_timestamp env, block_timestamp env + rd,
              block_timestamp env + rd, block_timestamp env + rd + vd)
       \<and> (block_timestamp env = 0 \<and> rd = 100 \<and> vd = 200
            \<longrightarrow> getTimeWindows e = (0, 100, 100, 300))
       \<and> constructor_Election env (msg_sender env) t d rd vd = Inr e"
proof -
  from assms have c: "constructor_Election env (msg_sender env) t d rd vd = Inr e"
    by (auto simp: createElection_def split: sum.splits)
  then have fits: "unat (block_timestamp env) + unat rd + unat vd < 2 ^ 256"
    and e: "e = \<lparr>admin = msg_sender env, title = t, description = d, phase = Created,
           registrationStart = block_timestamp env,
           registrationEnd = block_timestamp env + rd,
           votingStart = block_timestamp env + rd,
           votingEnd = block_timestamp env + rd + vd,
           candidatesCount = 0, candidates = (\<lambda>_. zero_Candidate),
           isRegisteredVoter = (\<lambda>_. False), hasVoted = (\<lambda>_. False)\<rparr>"
    by (simp_all add: constructor_Election_Inr_iff)
  from fits have re: "unat (block_timestamp env + rd) = unat (block_timestamp env) + unat rd"
    by (simp add: unat_plus_fits)
  with fits have ve: "unat (block_timestamp env + rd + vd)
      = unat (block_timestamp env + rd) + unat vd"
    by (simp add: unat_plus_fits)
  from c e re ve show ?thesis
    by (simp add: getTimeWindows_def)
qed

theorem creation_sets_windows_witness:
  "createElection (tx_at 0 10) ''Board'' ''Board election'' 100 200 77 initial_factory
     = Inr ((1, 77), \<lparr>electionCount = 1, elections = (\<lambda>_. 0)(1 := 77)\<rparr>, scenario_created)
   \<and> phase scenario_created = Created \<and> admin scenario_created = 10
   \<and> getTimeWindows scenario_created = (0, 100, 100, 300)"
proof -
  have c: "createElection (tx_at 0 10) ''Board'' ''Board election'' 100 200 77 initial_factory
     = Inr ((1, 77), \<lparr>electionCount = 1, elections = (\<lambda>_. 0)(1 := 77)\<rparr>, scenario_created)"
    using scenario_created_ok
    by (simp add: createElection_def initial_factory_def tx_at_def checked_add_def)
  from creation_sets_windows [OF c] show ?thesis
    using c by (simp add: tx_at_def)
qed

text \<open>
  \<^verbatim>\<open>createElection\<close> and the constructor it calls contain no \<^verbatim>\<open>require\<close>. The call
  succeeds exactly when \<open>now + registrationDuration + votingDuration\<close> fits
  \<^verbatim>\<open>uint256\<close> and \<^verbatim>\<open>electionCount\<close> is not at its top, whatever the title and the
  description are; it then adds one to \<^verbatim>\<open>electionCount\<close> and stores the deployed
  address under the new count. It fails only with an arithmetic panic, and then the count
  and the map are unchanged.
\<close>

lemma createElection_outcome:
  "((\<exists>res. createElection env t d rd vd deployed f = Inr res) \<longleftrightarrow>
       unat (block_timestamp env) + unat rd + unat vd < 2 ^ 256 \<and> electionCount f \<noteq> - 1)
   \<and> (\<forall>err. createElection env t d rd vd deployed f = Inl err \<longrightarrow>
         err = Panic \<and> createElection_storage env t d rd vd deployed f = f)
   \<and> (\<forall>r f' e. createElection env t d rd vd deployed f = Inr (r, f', e) \<longrightarrow>
         r = (electionCount f + 1, deployed)
       \<and> unat (electionCount f') = unat (electionCount f) + 1
       \<and> elections f' = (elections f)(electionCount f' := deployed)
       \<and> createElection_storage env t d rd vd deployed f = f')"
proof -
  have a: "(\<exists>res. createElection env t d rd vd deployed f = Inr res) \<longleftrightarrow>
       unat (block_timestamp env) + unat rd + unat vd < 2 ^ 256 \<and> electionCount f \<noteq> - 1"
    by (auto simp: createElection_def constructor_Election_eq checked_add_one
        simp del: power_numeral)
  have b: "\<forall>err. createElection env t d rd vd deployed f = Inl err \<longrightarrow>
         err = Panic \<and> createElection_storage env t d rd vd deployed f = f"
    by (auto simp: createElection_def createElection_storage_def constructor_Election_eq
        checked_add_one simp del: power_numeral split: if_splits)
  have c: "\<forall>r f' e. createElection env t d rd vd deployed f = Inr (r, f', e) \<longrightarrow>
         r = (electionCount f + 1, deployed)
       \<and> unat (electionCount f') = unat (electionCount f) + 1
       \<and> elections f' = (elections f)(electionCount f' := deployed)
       \<and> createElection_storage env t d rd vd deployed f = f'"
    by (auto simp: createElection_def createElection_storage_def constructor_Election_eq
        checked_add_one unat_succ simp del: power_numeral split: if_splits)
  from a b c show ?thesis by blast
qed

text \<open>
  Claim C4. \<^verbatim>\<open>createElection\<close> should fail, leaving the election count and map
  unchanged, whenever the title or the description is empty or a duration is zero (a
  \<^verbatim>\<open>uint256\<close> duration is never negative). The contract does not: called at time 7
  with an empty title, an empty description and both durations zero on a fresh factory,
  it succeeds, returns the id 1, counts and stores the new election, and deploys an
  election whose four window bounds are all 7.
\<close>

theorem createElection_accepts_empty_input:
  "createElection (tx_at 7 10) [] [] 0 0 77 initial_factory
     = Inr ((1, 77), \<lparr>electionCount = 1, elections = (\<lambda>_. 0)(1 := 77)\<rparr>,
            scenario_created\<lparr>title := [], description := [],
              registrationStart := 7, registrationEnd := 7, votingStart := 7, votingEnd := 7\<rparr>)
   \<and> createElection_storage (tx_at 7 10) [] [] 0 0 77 initial_factory \<noteq> initial_factory"
  by (simp add: createElection_def createElection_storage_def constructor_Election_def
      initial_factory_def tx_at_def checked_add_def scenario_created_def)

section \<open>The phase of an election\<close>

lemma dispatch_phase_step:
  assumes "dispatch env c s = Inr s'"
  shows "(c = StartRegistration \<longrightarrow> phase s = Created \<and> phase s' = Registration)
       \<and> (c = StartVoting \<longrightarrow> phase s = Registration \<and> phase s' = Voting)
       \<and> (c = EndElection \<longrightarrow> phase s = Voting \<and> phase s' = Ended)
       \<and> (c \<noteq> StartRegistration \<and> c \<noteq> StartVoting \<and> c \<noteq> EndElection
            \<longrightarrow> phase s' = phase s)"
  using assms by (cases c) (auto simp: call_defs Let_def split: if_splits sum.splits)

lemma dispatch_phase_index:
  assumes "dispatch env c s = Inr s'"
  shows "phase_index (phase s) \<le> phase_index (phase s')"
  using dispatch_phase_step [OF assms] by (cases c) auto

lemma run_phase_index: "phase_index (phase s) \<le> phase_index (phase (run txs s))"
proof (induction txs arbitrary: s)
  case Nil
  show ?case by simp
next
  case (Cons t txs)
  show ?case
  proof (cases "dispatch (fst t) (snd t) s")
    case (Inl e)
    with Cons.IH [of s] show ?thesis by simp
  next
    case (Inr s')
    from dispatch_phase_index [OF Inr] Cons.IH [of s'] Inr show ?thesis by simp
  qed
qed

lemma transition_count:
  assumes c: "c = StartRegistration \<and> n = 0 \<or> c = StartVoting \<and> n = 1 \<or> c = EndElection \<and> n = 2"
  shows "length (filter (\<lambda>t. snd t = c) (history txs s))
           \<le> (if phase_index (phase s) \<le> n then 1 else 0)"
proof (induction txs arbitrary: s)
  case Nil
  show ?case by simp
next
  case (Cons t txs)
  show ?case
  proof (cases "dispatch (fst t) (snd t) s")
    case (Inl e)
    with Cons.IH [of s] show ?thesis by simp
  next
    case (Inr s')
    note step = dispatch_phase_step [OF Inr]
    show ?thesis
    proof (cases "snd t = c")
      case True
      with step c have "phase_index (phase s) = n" "phase_index (phase s') = Suc n"
        by auto
      with Cons.IH [of s'] Inr True show ?thesis by simp
    next
      case False
      from dispatch_phase_index [OF Inr]
      have "phase_index (phase s) \<le> phase_index (phase s')" .
      with Cons.IH [of s'] Inr False show ?thesis by (simp split: if_splits)
    qed
  qed
qed

text \<open>
  Claim C3, as the contract has it. Every successful transaction leaves the phase where
  it is or moves it one step along Created, Registration, Voting, Ended; over any
  sequence of transactions the phase never goes back, and Ended is never left.
  \<^verbatim>\<open>startRegistration\<close> succeeds only from Created, \<^verbatim>\<open>startVoting\<close> only from
  Registration and \<^verbatim>\<open>endElection\<close> only from Voting. In any other phase each of them
  fails: with its phase error ("Already started", "Must be in registration", "Must be in
  voting") when the caller is the admin, and with "Only admin", which is checked first,
  for every other caller. So in every sequence of transactions each of the three succeeds
  at most once.
\<close>

theorem phase_moves_forward:
  "(\<forall>s'. startRegistration env s = Inr s' \<longrightarrow> phase s = Created \<and> phase s' = Registration)
   \<and> (\<forall>s'. startVoting env s = Inr s' \<longrightarrow> phase s = Registration \<and> phase s' = Voting)
   \<and> (\<forall>s'. endElection env s = Inr s' \<longrightarrow> phase s = Voting \<and> phase s' = Ended)
   \<and> (phase s \<noteq> Created \<longrightarrow>
         startRegistration env s
           = Inl (Revert (if msg_sender env = admin s then ''Already started'' else ''Only admin'')))
   \<and> (phase s \<noteq> Registration \<longrightarrow>
         startVoting env s
           = Inl (Revert (if msg_sender env = admin s then ''Must be in registration''
                          else ''Only admin'')))
   \<and> (phase s \<noteq> Voting \<longrightarrow>
         endElection env s
           = Inl (Revert (if msg_sender env = admin s then ''Must be in voting''
                          else ''Only admin'')))
   \<and> (\<forall>c s'. dispatch env c s = Inr s' \<longrightarrow>
         phase s' = phase s \<or> phase_index (phase s') = Suc (phase_index (phase s)))
   \<and> (\<forall>txs. phase_index (phase s) \<le> phase_index (phase (run txs s)))
   \<and> (\<forall>txs. phase s = Ended \<longrightarrow> phase (run txs s) = Ended)
   \<and> (\<forall>txs. length (filter (\<lambda>t. snd t = StartRegistration) (history txs s)) \<le> 1
            \<and> length (filter (\<lambda>t. snd t = StartVoting) (history txs s)) \<le> 1
            \<and> length (filter (\<lambda>t. snd t = EndElection) (history txs s)) \<le> 1)"
proof -
  have ops: "\<forall>s'. startRegistration env s = Inr s' \<longrightarrow> phase s = Created \<and> phase s' = Registration"
    "\<forall>s'. startVoting env s = Inr s' \<longrightarrow> phase s = Registration \<and> phase s' = Voting"
    "\<forall>s'. endElection env s = Inr s' \<longrightarrow> phase s = Voting \<and> phase s' = Ended"
    by (auto simp: call_defs split: if_splits)
  have errs: "phase s \<noteq> Created \<longrightarrow>
         startRegistration env s
           = Inl (Revert (if msg_sender env = admin s then ''Already started'' else ''Only admin''))"
    "phase s \<noteq> Registration \<longrightarrow>
         startVoting env s
           = Inl (Revert (if msg_sender env = admin s then ''Must be in registration''
                          else ''Only admin''))"
    "phase s \<noteq> Voting \<longrightarrow>
         endElection env s
           = Inl (Revert (if msg_sender env = admin s then ''Must be in voting''
                          else ''Only admin''))"
    by (simp_all add: call_defs)
  have step: "\<forall>c s'. dispatch env c s = Inr s' \<longrightarrow>
         phase s' = phase s \<or> phase_index (phase s') = Suc (phase_index (phase s))"
  proof (intro allI impI)
    fix c s' assume d: "dispatch env c s = Inr s'"
    from dispatch_phase_step [OF d]
    show "phase s' = phase s \<or> phase_index (phase s') = Suc (phase_index (phase s))"
      by (cases c) auto
  qed
  have mono: "\<forall>txs. phase_index (phase s) \<le> phase_index (phase (run txs s))"
    by (simp add: run_phase_index)
  have ended: "\<forall>txs. phase s = Ended \<longrightarrow> phase (run txs s) = Ended"
  proof (intro allI impI)
    fix txs assume "phase s = Ended"
    with run_phase_index [of s txs] have "3 \<le> phase_index (phase (run txs s))" by simp
    then show "phase (run txs s) = Ended" by (cases "phase (run txs s)") simp_all
  qed
  have once: "\<forall>txs. length (filter (\<lambda>t. snd t = StartRegistration) (history txs s)) \<le> 1
            \<and> length (filter (\<lambda>t. snd t = StartVoting) (history txs s)) \<le> 1
            \<and> length (filter (\<lambda>t. snd t = EndElection) (history txs s)) \<le> 1"
  proof (intro allI conjI)
    fix txs
    show "length (filter (\<lambda>t. snd t = StartRegistration) (history txs s)) \<le> 1"
      using transition_count [of StartRegistration 0 txs s] by (simp split: if_splits)
    show "length (filter (\<lambda>t. snd t = StartVoting) (history txs s)) \<le> 1"
      using transition_count [of StartVoting 1 txs s] by (simp split: if_splits)
    show "length (filter (\<lambda>t. snd t = EndElection) (history txs s)) \<le> 1"
      using transition_count [of EndElection 2 txs s] by (simp split: if_splits)
  qed
  show ?thesis
    by (intro conjI) (rule ops errs step mono ended once)+
qed

theorem phase_moves_forward_witness:
  "startRegistration (tx_at 3 10) scenario_created
       = Inr (scenario_created\<lparr>phase := Registration\<rparr>)
   \<and> phase scenario_created = Created
   \<and> phase (scenario_created\<lparr>phase := Registration\<rparr>) = Registration
   \<and> phase scenario_voting \<noteq> Created
   \<and> startRegistration (tx_at 170 10) scenario_voting = Inl (Revert ''Already started'')
   \<and> phase (scenario_voting\<lparr>phase := Ended\<rparr>) = Ended
   \<and> phase (run scenario_rest (scenario_voting\<lparr>phase := Ended\<rparr>)) = Ended
   \<and> history scenario_rest scenario_voting
       = [(tx_at 150 21, Vote 1), (tx_at 200 10, EndElection)]
   \<and> length (filter (\<lambda>t. snd t = EndElection) (history scenario_rest scenario_voting)) \<le> 1"
proof -
  note c2 = conjunct2
  note created = phase_moves_forward [of "tx_at 3 10" scenario_created, THEN conjunct1, rule_format]
  note voting = phase_moves_forward [of "tx_at 170 10" scenario_voting]
  note again = voting [THEN c2, THEN c2, THEN c2, THEN conjunct1, rule_format]
  note once = voting [THEN c2, THEN c2, THEN c2, THEN c2, THEN c2, THEN c2, THEN c2, THEN c2,
      THEN c2, rule_format, of scenario_rest, THEN c2, THEN c2]
  note ended = phase_moves_forward [of "tx_at 210 10" "scenario_voting\<lparr>phase := Ended\<rparr>",
      THEN c2, THEN c2, THEN c2, THEN c2, THEN c2, THEN c2, THEN c2, THEN c2, THEN conjunct1,
      rule_format, of scenario_rest]
  have call: "startRegistration (tx_at 3 10) scenario_created
       = Inr (scenario_created\<lparr>phase := Registration\<rparr>)"
    by (simp add: scenario_created_def tx_at_def startRegistration_def)
  note p = created [OF call]
  have v: "phase scenario_voting \<noteq> Created"
    by (simp add: scenario_voting_def scenario_created_def)
  have adm: "msg_sender (tx_at 170 10) = admin scenario_voting"
    by (simp add: scenario_voting_def scenario_created_def tx_at_def)
  from again [OF v] adm have a: "startRegistration (tx_at 170 10) scenario_voting
      = Inl (Revert ''Already started'')"
    by simp
  have e: "phase (scenario_voting\<lparr>phase := Ended\<rparr>) = Ended" by simp
  note stay = ended [OF e]
  have h: "history scenario_rest scenario_voting
       = [(tx_at 150 21, Vote 1), (tx_at 200 10, EndElection)]"
    by (simp add: scenario_rest_def scenario_voting_def scenario_created_def
      tx_at_def call_defs checked_add_def)
  show ?thesis
    by (intro conjI) (rule call p [THEN conjunct1] p [THEN conjunct2] v a e stay h once)+
qed

theorem startRegistration_not_admin_counterexample:
  "phase scenario_voting \<noteq> Created
   \<and> msg_sender (tx_at 170 21) \<noteq> admin scenario_voting
   \<and> startRegistration (tx_at 170 21) scenario_voting = Inl (Revert ''Only admin'')
   \<and> startRegistration (tx_at 170 21) scenario_voting \<noteq> Inl (Revert ''Already started'')
   \<and> endElection (tx_at 170 21) scenario_created = Inl (Revert ''Only admin'')"
  by (simp add: scenario_voting_def scenario_created_def tx_at_def call_defs)

section \<open>Candidate storage\<close>

lemma le_succ_word:
  assumes "(n :: uint256) \<noteq> - 1"
  shows "k \<le> n + 1 \<longleftrightarrow> k \<le> n \<or> k = n + 1"
proof -
  have "unat k \<le> unat n + 1 \<longleftrightarrow> unat k \<le> unat n \<or> unat k = unat n + 1" by auto
  with assms show ?thesis
    by (simp add: word_le_nat_alt word_unat_eq_iff unat_succ)
qed

lemma succ_not_le_word: "(n :: uint256) \<noteq> - 1 \<Longrightarrow> \<not> n + 1 \<le> n"
  by (simp add: word_le_nat_alt unat_succ)

lemma one_le_succ_word: "(n :: uint256) \<noteq> - 1 \<Longrightarrow> 1 \<le> n + 1"
  by (simp add: word_le_nat_alt unat_succ)

lemma addCandidate_Inr_iff:
  "addCandidate env nm s = Inr s' \<longleftrightarrow>
     msg_sender env = admin s \<and> phase s = Created \<and> nm \<noteq> [] \<and> candidatesCount s \<noteq> - 1
   \<and> s' = s\<lparr>candidatesCount := candidatesCount s + 1,
             candidates := (candidates s)
               (candidatesCount s + 1 :=
                  \<lparr>id_c = candidatesCount s + 1, name = nm, voteCount = 0\<rparr>)\<rparr>"
  by (auto simp: addCandidate_def checked_add_one)

lemma candidates_wf_init:
  "constructor_Election env a t d rd vd = Inr s0 \<Longrightarrow> candidates_wf s0"
  by (auto simp: constructor_Election_Inr_iff candidates_wf_def word_le_nat_alt)

lemma candidates_wf_dispatch:
  assumes "dispatch env c s = Inr s'" and "candidates_wf s"
  shows "candidates_wf s'"
proof (cases c)
  case (AddCandidate nm)
  with assms(1) have n: "candidatesCount s \<noteq> - 1"
    and s': "s' = s\<lparr>candidatesCount := candidatesCount s + 1,
             candidates := (candidates s)
               (candidatesCount s + 1 :=
                  \<lparr>id_c = candidatesCount s + 1, name = nm, voteCount = 0\<rparr>)\<rparr>"
    by (simp_all add: addCandidate_Inr_iff)
  show ?thesis
    unfolding candidates_wf_def
  proof
    fix k
    show "if 1 \<le> k \<and> k \<le> candidatesCount s'
          then id_c (candidates s' k) = k else candidates s' k = zero_Candidate"
    proof (cases "k = candidatesCount s + 1")
      case True
      with one_le_succ_word [OF n] show ?thesis by (simp add: s')
    next
      case False
      with assms(2) le_succ_word [OF n, of k] show ?thesis
        by (simp add: s' candidates_wf_def)
    qed
  qed
next
  case (Vote k)
  with assms(1) have "1 \<le> k" "k \<le> candidatesCount s"
    and s': "s' = s\<lparr>hasVoted := (hasVoted s)(msg_sender env := True),
             candidates := (candidates s)
               (k := (candidates s k)\<lparr>voteCount := voteCount (candidates s k) + 1\<rparr>)\<rparr>"
    by (simp_all add: vote_Inr_iff)
  with assms(2) show ?thesis
    unfolding candidates_wf_def s' by auto
qed (use assms in \<open>auto simp: candidates_wf_def call_defs split: if_splits\<close>)

lemma candidates_wf_run: "candidates_wf s \<Longrightarrow> candidates_wf (run txs s)"
proof (induction txs arbitrary: s)
  case Nil
  then show ?case by simp
next
  case (Cons t txs)
  then show ?case
    by (cases "dispatch (fst t) (snd t) s") (auto dest: candidates_wf_dispatch)
qed

lemma candidates_wf_reachable: "reachable s \<Longrightarrow> candidates_wf s"
  unfolding reachable_def using candidates_wf_init candidates_wf_run by blast

text \<open>
  Claim C9, as the contract has it. \<^verbatim>\<open>getCandidate\<close> is a plain read of the mapping
  and never fails. In every reachable state it returns, for an id from 1 to
  \<^verbatim>\<open>candidatesCount\<close>, the candidate of that id, and for every other id the record of
  a key never written: id 0, empty name and no votes.
\<close>

theorem getCandidate_never_fails:
  "getCandidate s i = Inr (candidates s i)
   \<and> (reachable s \<and> \<not> (1 \<le> i \<and> i \<le> candidatesCount s)
        \<longrightarrow> getCandidate s i = Inr zero_Candidate)
   \<and> (reachable s \<and> 1 \<le> i \<and> i \<le> candidatesCount s
        \<longrightarrow> (\<exists>c. getCandidate s i = Inr c \<and> id_c c = i))"
proof -
  have "candidates_wf s \<Longrightarrow> \<not> (1 \<le> i \<and> i \<le> candidatesCount s)
      \<Longrightarrow> candidates s i = zero_Candidate"
    unfolding candidates_wf_def by metis
  moreover have "candidates_wf s \<Longrightarrow> 1 \<le> i \<and> i \<le> candidatesCount s
      \<Longrightarrow> id_c (candidates s i) = i"
    unfolding candidates_wf_def by metis
  ultimately show ?thesis
    by (auto simp: getCandidate_def dest: candidates_wf_reachable)
qed

theorem getCandidate_never_fails_witness:
  "reachable scenario_voting
   \<and> \<not> (1 \<le> (9 :: uint256) \<and> 9 \<le> candidatesCount scenario_voting)
   \<and> getCandidate scenario_voting 9 = Inr zero_Candidate
   \<and> (1 :: uint256) \<le> 2 \<and> 2 \<le> candidatesCount scenario_voting
   \<and> getCandidate scenario_voting 2 = Inr \<lparr>id_c = 2, name = ''Bob'', voteCount = 0\<rparr>"
proof -
  note nine = getCandidate_never_fails [of scenario_voting 9, THEN conjunct2, THEN conjunct1,
      rule_format]
  have out: "\<not> (1 \<le> (9 :: uint256) \<and> 9 \<le> candidatesCount scenario_voting)"
    by (simp add: scenario_voting_def scenario_created_def)
  have two: "(1 :: uint256) \<le> 2" "2 \<le> candidatesCount scenario_voting"
    by (simp_all add: scenario_voting_def scenario_created_def)
  have bob: "getCandidate scenario_voting 2 = Inr \<lparr>id_c = 2, name = ''Bob'', voteCount = 0\<rparr>"
    by (simp add: getCandidate_def scenario_voting_def scenario_created_def)
  from nine [OF conjI [OF reachable_scenario_voting out]] reachable_scenario_voting out two bob
  show ?thesis by simp
qed

theorem getCandidate_unknown_id_counterexample:
  "\<not> (1 \<le> (9 :: uint256) \<and> 9 \<le> candidatesCount scenario_voting)
   \<and> getCandidate scenario_voting 9 = Inr \<lparr>id_c = 0, name = [], voteCount = 0\<rparr>
   \<and> getCandidate scenario_voting 0 = Inr \<lparr>id_c = 0, name = [], voteCount = 0\<rparr>
   \<and> run scenario_setup scenario_created = scenario_voting
   \<and> constructor_Election (tx_at 0 10) 10 ''Board'' ''Board election'' 100 200
       = Inr scenario_created"
  using scenario_setup_run scenario_created_ok
  by (simp add: getCandidate_def scenario_voting_def scenario_created_def zero_Candidate_def)

section \<open>Voters\<close>

lemma dispatch_registers:
  assumes "dispatch env c s = Inr s'" and "isRegisteredVoter s' v"
  shows "isRegisteredVoter s v \<or> c = RegisterVoter \<and> msg_sender env = v"
  using assms by (cases c) (auto simp: call_defs Let_def split: if_splits sum.splits)

lemma dispatch_voted_registered:
  assumes "dispatch env c s = Inr s'" and "\<forall>v. hasVoted s v \<longrightarrow> isRegisteredVoter s v"
  shows "\<forall>v. hasVoted s' v \<longrightarrow> isRegisteredVoter s' v"
  using assms by (cases c) (auto simp: call_defs Let_def split: if_splits sum.splits)

lemma run_voted_registered:
  "\<forall>v. hasVoted s v \<longrightarrow> isRegisteredVoter s v
     \<Longrightarrow> \<forall>v. hasVoted (run txs s) v \<longrightarrow> isRegisteredVoter (run txs s) v"
proof (induction txs arbitrary: s)
  case Nil
  then show ?case by simp
next
  case (Cons t txs)
  show ?case
  proof (cases "dispatch (fst t) (snd t) s")
    case (Inl e)
    with Cons show ?thesis by simp
  next
    case (Inr s')
    from Cons.IH [OF dispatch_voted_registered [OF Inr Cons.prems]] Inr
    show ?thesis by simp
  qed
qed

lemma registered_in_history:
  assumes "isRegisteredVoter (run txs s) v"
  shows "isRegisteredVoter s v
       \<or> (\<exists>e. (e, RegisterVoter) \<in> set (history txs s) \<and> msg_sender e = v)"
  using assms
proof (induction txs arbitrary: s)
  case Nil
  then show ?case by simp
next
  case (Cons t txs)
  show ?case
  proof (cases "dispatch (fst t) (snd t) s")
    case (Inl e)
    with Cons.IH [of s] Cons.prems show ?thesis by simp
  next
    case (Inr s')
    with Cons.prems have "isRegisteredVoter (run txs s') v" by simp
    from Cons.IH [OF this] show ?thesis
    proof
      assume "isRegisteredVoter s' v"
      from dispatch_registers [OF Inr this] show ?thesis
      proof
        assume "snd t = RegisterVoter \<and> msg_sender (fst t) = v"
        then have "(fst t, RegisterVoter) \<in> set (history (t # txs) s)" "msg_sender (fst t) = v"
          using Inr by (simp_all add: prod_eq_iff)
        then show ?thesis by blast
      qed simp
    next
      assume "\<exists>e. (e, RegisterVoter) \<in> set (history txs s') \<and> msg_sender e = v"
      with Inr show ?thesis by auto
    qed
  qed
qed

text \<open>A successful transaction of a history was run in the state its predecessors built.\<close>

lemma history_split:
  assumes "history txs s = h1 @ t # h2"
  shows "\<exists>txs1 txs2. txs = txs1 @ t # txs2 \<and> history txs1 s = h1
           \<and> (\<exists>s'. dispatch (fst t) (snd t) (run txs1 s) = Inr s')"
  using assms
proof (induction txs arbitrary: s h1)
  case Nil
  then show ?case by simp
next
  case (Cons a txs)
  show ?case
  proof (cases "dispatch (fst a) (snd a) s")
    case (Inl e)
    with Cons.prems have "history txs s = h1 @ t # h2" by simp
    from Cons.IH [OF this] obtain txs1 txs2 s' where
      "txs = txs1 @ t # txs2" "history txs1 s = h1"
      "dispatch (fst t) (snd t) (run txs1 s) = Inr s'" by blast
    with Inl have "a # txs = (a # txs1) @ t # txs2 \<and> history (a # txs1) s = h1
        \<and> dispatch (fst t) (snd t) (run (a # txs1) s) = Inr s'"
      by simp
    then show ?thesis by blast
  next
    case (Inr s1)
    with Cons.prems have h: "a # history txs s1 = h1 @ t # h2" by simp
    show ?thesis
    proof (cases h1)
      case Nil
      with h have "t = a" by simp
      with Inr Nil have "a # txs = [] @ t # txs \<and> history [] s = h1
          \<and> dispatch (fst t) (snd t) (run [] s) = Inr s1"
        by simp
      then show ?thesis by blast
    next
      case (Cons b h1')
      with h have b: "b = a" and "history txs s1 = h1' @ t # h2" by simp_all
      from Cons.IH [OF this(2)] obtain txs1 txs2 s' where
        "txs = txs1 @ t # txs2" "history txs1 s1 = h1'"
        "dispatch (fst t) (snd t) (run txs1 s1) = Inr s'" by blast
      with Inr Cons b have "a # txs = (a # txs1) @ t # txs2 \<and> history (a # txs1) s = h1
          \<and> dispatch (fst t) (snd t) (run (a # txs1) s) = Inr s'"
        by simp
      then show ?thesis by blast
    qed
  qed
qed

lemma voted_registered_init:
  "constructor_Election env a t d rd vd = Inr s0
     \<Longrightarrow> (\<forall>v. \<not> hasVoted s0 v) \<and> (\<forall>v. \<not> isRegisteredVoter s0 v)"
  by (auto simp: constructor_Election_Inr_iff)

text \<open>
  Claim C10. In every reachable state a voter whose \<^verbatim>\<open>hasVoted\<close> flag is set also has
  the \<^verbatim>\<open>isRegisteredVoter\<close> flag set. In the history of an election, every successful
  \<^verbatim>\<open>vote\<close> call comes after a successful \<^verbatim>\<open>registerVoter\<close> call of the same sender.
\<close>

theorem voted_implies_registered:
  "(reachable s \<and> hasVoted s v \<longrightarrow> isRegisteredVoter s v)
   \<and> (constructor_Election env0 a t d rd vd = Inr s0
        \<and> history txs s0 = h1 @ (e, Vote k) # h2
      \<longrightarrow> (\<exists>e'. (e', RegisterVoter) \<in> set h1 \<and> msg_sender e' = msg_sender e))"
proof
  show "reachable s \<and> hasVoted s v \<longrightarrow> isRegisteredVoter s v"
  proof
    assume r: "reachable s \<and> hasVoted s v"
    then obtain env a t d rd vd s0 txs where
      c: "constructor_Election env a t d rd vd = Inr s0" and s: "s = run txs s0"
      unfolding reachable_def by blast
    from voted_registered_init [OF c]
    have "\<forall>v. hasVoted s0 v \<longrightarrow> isRegisteredVoter s0 v" by simp
    from run_voted_registered [OF this, of txs] r s
    show "isRegisteredVoter s v" by simp
  qed
next
  show "constructor_Election env0 a t d rd vd = Inr s0
        \<and> history txs s0 = h1 @ (e, Vote k) # h2
      \<longrightarrow> (\<exists>e'. (e', RegisterVoter) \<in> set h1 \<and> msg_sender e' = msg_sender e)"
  proof
    assume asm: "constructor_Election env0 a t d rd vd = Inr s0
        \<and> history txs s0 = h1 @ (e, Vote k) # h2"
    then have c: "constructor_Election env0 a t d rd vd = Inr s0"
      and h: "history txs s0 = h1 @ (e, Vote k) # h2" by simp_all
    from history_split [OF h] obtain txs1 s' where
      h1: "history txs1 s0 = h1" and v: "vote e k (run txs1 s0) = Inr s'"
      by auto
    from v have "isRegisteredVoter (run txs1 s0) (msg_sender e)"
      by (simp add: vote_Inr_iff)
    from registered_in_history [OF this] voted_registered_init [OF c] h1
    show "\<exists>e'. (e', RegisterVoter) \<in> set h1 \<and> msg_sender e' = msg_sender e"
      by simp
  qed
qed

lemma scenario_rest_run: "run scenario_rest scenario_voting = scenario_voted"
  by (simp add: scenario_rest_def scenario_voting_def scenario_voted_def scenario_created_def
      tx_at_def call_defs checked_add_def fun_upd_twist)

lemma scenario_history:
  "history (scenario_setup @ scenario_rest) scenario_created
     = scenario_setup @ [(tx_at 150 21, Vote 1), (tx_at 200 10, EndElection)]"
  by (simp add: scenario_setup_def scenario_rest_def scenario_created_def
      tx_at_def call_defs checked_add_def)

lemma reachable_scenario_voted: "reachable scenario_voted"
  using reachable_run [OF reachable_scenario_voting, of scenario_rest]
  by (simp add: scenario_rest_run)

theorem voted_implies_registered_witness:
  "reachable scenario_voted \<and> hasVoted scenario_voted 21 \<and> isRegisteredVoter scenario_voted 21
   \<and> constructor_Election (tx_at 0 10) 10 ''Board'' ''Board election'' 100 200
       = Inr scenario_created
   \<and> history (scenario_setup @ scenario_rest) scenario_created
       = scenario_setup @ (tx_at 150 21, Vote 1) # [(tx_at 200 10, EndElection)]
   \<and> (\<exists>e'. (e', RegisterVoter) \<in> set scenario_setup
          \<and> msg_sender e' = msg_sender (tx_at 150 21))"
proof -
  have v: "hasVoted scenario_voted 21" by (simp add: scenario_voted_def)
  from voted_implies_registered [of scenario_voted 21, THEN conjunct1, rule_format,
      OF conjI [OF reachable_scenario_voted v]]
  have r: "isRegisteredVoter scenario_voted 21" .
  have h: "history (scenario_setup @ scenario_rest) scenario_created
       = scenario_setup @ (tx_at 150 21, Vote 1) # [(tx_at 200 10, EndElection)]"
    using scenario_history by simp
  from voted_implies_registered [THEN conjunct2, rule_format,
      OF conjI [OF scenario_created_ok h]]
  have p: "\<exists>e'. (e', RegisterVoter) \<in> set scenario_setup
          \<and> msg_sender e' = msg_sender (tx_at 150 21)" .
  from reachable_scenario_voted v r scenario_created_ok h p show ?thesis by simp
qed

section \<open>Candidate ids\<close>

lemma of_nat_Suc_unat: "(of_nat (Suc (unat n)) :: uint256) = n + 1"
  by simp

lemma of_nat_in_range:
  assumes "1 \<le> i" and "i \<le> unat (n :: uint256)"
  shows "unat (of_nat i :: uint256) = i" and "1 \<le> (of_nat i :: uint256)"
    and "(of_nat i :: uint256) \<le> n"
proof -
  show u: "unat (of_nat i :: uint256) = i" using assms(2) by (rule le_unat_uoi)
  from assms u show "1 \<le> (of_nat i :: uint256)" "(of_nat i :: uint256) \<le> n"
    by (simp_all add: word_le_nat_alt)
qed

lemma dispatch_snapshot:
  assumes "dispatch env c s = Inr s'"
  shows "unat (candidatesCount s') = unat (candidatesCount s) + length (name_added c)"
    and "map name (snapshot s') = map name (snapshot s) @ name_added c"
proof -
  show "unat (candidatesCount s') = unat (candidatesCount s) + length (name_added c)"
    using assms
    by (cases c)
      (auto simp: addCandidate_Inr_iff vote_Inr_iff unat_succ startRegistration_def
        startVoting_def endElection_def registerVoter_def split: if_splits)
  show "map name (snapshot s') = map name (snapshot s) @ name_added c"
  proof (cases c)
    case (AddCandidate nm)
    with assms have n: "candidatesCount s \<noteq> - 1"
      and s': "s' = s\<lparr>candidatesCount := candidatesCount s + 1,
             candidates := (candidates s)
               (candidatesCount s + 1 :=
                  \<lparr>id_c = candidatesCount s + 1, name = nm, voteCount = 0\<rparr>)\<rparr>"
      by (simp_all add: addCandidate_Inr_iff)
    have old: "candidates s' (of_nat i) = candidates s (of_nat i)"
      if "i \<in> set [1..<Suc (unat (candidatesCount s))]" for i
    proof -
      from that have "1 \<le> i" "i \<le> unat (candidatesCount s)" by auto
      then have "unat (of_nat i :: uint256) = i" by (rule of_nat_in_range)
      with \<open>i \<le> unat (candidatesCount s)\<close> unat_succ [OF n]
      have "(of_nat i :: uint256) \<noteq> candidatesCount s + 1" by auto
      then show ?thesis by (simp add: s')
    qed
    have "snapshot s' = map (\<lambda>i. candidates s' (of_nat i)) [1..<Suc (unat (candidatesCount s))]
        @ [candidates s' (candidatesCount s + 1)]"
      by (simp add: snapshot_def s' unat_succ [OF n])
    also have "map (\<lambda>i. candidates s' (of_nat i)) [1..<Suc (unat (candidatesCount s))]
        = snapshot s"
      unfolding snapshot_def using old by (intro map_cong) simp_all
    finally show ?thesis using AddCandidate by (simp add: s')
  next
    case (Vote k)
    with assms have "candidatesCount s' = candidatesCount s"
      "\<And>j. name (candidates s' j) = name (candidates s j)"
      by (auto simp: vote_Inr_iff)
    with Vote show ?thesis by (simp add: snapshot_def)
  qed (use assms in \<open>auto simp: snapshot_def startRegistration_def startVoting_def
        endElection_def registerVoter_def split: if_splits\<close>)
qed

lemma run_snapshot:
  "unat (candidatesCount (run txs s))
     = unat (candidatesCount s) + length (added_names (history txs s))
   \<and> map name (snapshot (run txs s)) = map name (snapshot s) @ added_names (history txs s)"
proof (induction txs arbitrary: s)
  case Nil
  show ?case by (simp add: added_names_def)
next
  case (Cons t txs)
  show ?case
  proof (cases "dispatch (fst t) (snd t) s")
    case (Inl e)
    with Cons.IH [of s] show ?thesis by simp
  next
    case (Inr s')
    have "length (name_added (snd t)) \<le> 1" by (cases "snd t") simp_all
    with dispatch_snapshot [OF Inr] Cons.IH [of s'] Inr show ?thesis
      by (simp add: added_names_def)
  qed
qed

lemma snapshot_ids:
  assumes "candidates_wf s"
  shows "map id_c (snapshot s) = map of_nat [1..<Suc (unat (candidatesCount s))]"
    and "map (\<lambda>c. unat (id_c c)) (snapshot s) = [1..<Suc (unat (candidatesCount s))]"
proof -
  have id: "id_c (candidates s (of_nat i)) = of_nat i \<and> unat (of_nat i :: uint256) = i"
    if "i \<in> set [1..<Suc (unat (candidatesCount s))]" for i
  proof -
    from that have "1 \<le> i" "i \<le> unat (candidatesCount s)" by auto
    from of_nat_in_range [OF this] assms show ?thesis
      unfolding candidates_wf_def by metis
  qed
  then show "map id_c (snapshot s) = map of_nat [1..<Suc (unat (candidatesCount s))]"
    unfolding snapshot_def map_map by (intro map_cong) simp_all
  have "map (\<lambda>c. unat (id_c c)) (snapshot s)
      = map (\<lambda>i. i) [1..<Suc (unat (candidatesCount s))]"
    unfolding snapshot_def map_map using id by (intro map_cong) simp_all
  then show "map (\<lambda>c. unat (id_c c)) (snapshot s) = [1..<Suc (unat (candidatesCount s))]"
    by simp
qed

lemma getAllCandidates_loop_from:
  assumes n: "candidatesCount s \<noteq> - 1"
    and len: "length list = unat (candidatesCount s)"
    and j: "j \<le> unat (candidatesCount s)"
  shows "getAllCandidates_loop s (of_nat (Suc j)) list
       = Inr (take j list
              @ map (\<lambda>i. candidates s (of_nat i)) [Suc j..<Suc (unat (candidatesCount s))])"
  using len j
proof (induction "unat (candidatesCount s) - j" arbitrary: j list)
  case 0
  then have eq: "j = unat (candidatesCount s)" by simp
  have "\<not> (of_nat (Suc j) :: uint256) \<le> candidatesCount s"
    unfolding eq of_nat_Suc_unat using succ_not_le_word [OF n] .
  then show ?case
    using 0 by (subst getAllCandidates_loop.simps) (simp add: eq)
next
  case (Suc m)
  let ?N = "unat (candidatesCount s)"
  let ?i = "of_nat (Suc j) :: uint256"
  from Suc have lt: "Suc j \<le> ?N" by simp
  from of_nat_in_range [OF _ lt]
  have u: "unat ?i = Suc j" and one: "1 \<le> ?i" and le: "?i \<le> candidatesCount s"
    by simp_all
  from le n have ni: "?i \<noteq> - 1"
    by (metis max_word_max word_le_less_eq leD)
  from one have sub: "checked_sub ?i 1 = Inr (of_nat j)"
    by (simp add: checked_sub_def)
  from lt have uj: "unat (of_nat j :: uint256) = j"
    by (intro le_unat_uoi [of j "candidatesCount s"]) simp
  have add: "checked_add ?i 1 = Inr (of_nat (Suc (Suc j)))"
    using ni by (simp add: checked_add_one)
  from lt Suc.prems have jl: "j < length list" by simp
  have step: "getAllCandidates_loop s ?i list
      = getAllCandidates_loop s (of_nat (Suc (Suc j))) (list[j := candidates s ?i])"
    using le sub add jl uj by (subst getAllCandidates_loop.simps) simp
  from Suc have "m = ?N - Suc j" "length (list[j := candidates s ?i]) = ?N" by simp_all
  from Suc.hyps(1) [OF this lt]
  have "getAllCandidates_loop s (of_nat (Suc (Suc j))) (list[j := candidates s ?i])
      = Inr (take (Suc j) (list[j := candidates s ?i])
             @ map (\<lambda>i. candidates s (of_nat i)) [Suc (Suc j)..<Suc ?N])" .
  moreover have "take (Suc j) (list[j := candidates s ?i]) = take j list @ [candidates s ?i]"
    using jl by (simp add: take_Suc_conv_app_nth)
  moreover have "[Suc j..<Suc ?N] = Suc j # [Suc (Suc j)..<Suc ?N]"
    using lt by (simp add: upt_conv_Cons)
  ultimately show ?case using step by simp
qed

lemma getAllCandidates_snapshot:
  assumes "candidatesCount s \<noteq> - 1"
  shows "getAllCandidates s = Inr (snapshot s)"
  using getAllCandidates_loop_from [OF assms, of "replicate (unat (candidatesCount s)) zero_Candidate" 0]
  by (simp add: getAllCandidates_def snapshot_def)

lemma run_scenario: "run (scenario_setup @ scenario_rest) scenario_created = scenario_voted"
  by (simp add: run_append scenario_setup_run scenario_rest_run)

text \<open>
  Claim C8. In every reachable election state the candidate ids are exactly 1 to
  \<^verbatim>\<open>candidatesCount\<close>: the record under such an id carries it, and no other key holds a
  record. The ids were given in call order: the count is the number of successful
  \<^verbatim>\<open>addCandidate\<close> calls so far, the names under the ids 1, 2, ... are the names of
  those calls in order, and a further successful \<^verbatim>\<open>addCandidate\<close> stores its name with
  no votes under the id count + 1 and touches no other record. \<^verbatim>\<open>getAllCandidates\<close>
  returns the records of the ids 1 to \<^verbatim>\<open>candidatesCount\<close> in ascending order (as long
  as the count is below the top of \<^verbatim>\<open>uint256\<close>, where the loop counter would overflow).
\<close>

theorem candidate_ids_sequential:
  assumes "constructor_Election env0 a t d rd vd = Inr s0"
    and "s = run txs s0" and "h = history txs s0"
  shows "(\<forall>k. 1 \<le> k \<and> k \<le> candidatesCount s \<longrightarrow> id_c (candidates s k) = k)
       \<and> (\<forall>k. \<not> (1 \<le> k \<and> k \<le> candidatesCount s) \<longrightarrow> candidates s k = zero_Candidate)
       \<and> unat (candidatesCount s) = length (added_names h)
       \<and> map name (snapshot s) = added_names h
       \<and> map (\<lambda>c. unat (id_c c)) (snapshot s) = [1..<Suc (length (added_names h))]
       \<and> length (snapshot s) = unat (candidatesCount s)
       \<and> (\<forall>i<length (snapshot s). snapshot s ! i = candidates s (of_nat (Suc i)))
       \<and> (\<forall>env nm s'. addCandidate env nm s = Inr s' \<longrightarrow>
             unat (candidatesCount s') = unat (candidatesCount s) + 1
           \<and> candidates s' = (candidates s)
                (candidatesCount s' := \<lparr>id_c = candidatesCount s', name = nm, voteCount = 0\<rparr>))
       \<and> (candidatesCount s \<noteq> - 1 \<longrightarrow> getAllCandidates s = Inr (snapshot s))"
proof -
  from assms(1) have init: "candidatesCount s0 = 0" "snapshot s0 = []"
    by (simp_all add: constructor_Election_Inr_iff snapshot_def)
  have wf: "candidates_wf s"
    unfolding assms(2) by (rule candidates_wf_run [OF candidates_wf_init [OF assms(1)]])
  have ids: "\<forall>k. 1 \<le> k \<and> k \<le> candidatesCount s \<longrightarrow> id_c (candidates s k) = k"
    using wf unfolding candidates_wf_def by metis
  have none: "\<forall>k. \<not> (1 \<le> k \<and> k \<le> candidatesCount s) \<longrightarrow> candidates s k = zero_Candidate"
    using wf unfolding candidates_wf_def by metis
  from run_snapshot [of txs s0] init
  have count: "unat (candidatesCount s) = length (added_names h)"
    and names: "map name (snapshot s) = added_names h"
    by (simp_all add: assms(2,3))
  from snapshot_ids(2) [OF wf] count
  have order: "map (\<lambda>c. unat (id_c c)) (snapshot s) = [1..<Suc (length (added_names h))]"
    by simp
  have len: "length (snapshot s) = unat (candidatesCount s)"
    by (simp add: snapshot_def)
  have nth: "\<forall>i<length (snapshot s). snapshot s ! i = candidates s (of_nat (Suc i))"
    unfolding snapshot_def by (simp add: nth_map_upt del: upt_Suc of_nat_Suc)
  have add: "\<forall>env nm s'. addCandidate env nm s = Inr s' \<longrightarrow>
             unat (candidatesCount s') = unat (candidatesCount s) + 1
           \<and> candidates s' = (candidates s)
                (candidatesCount s' := \<lparr>id_c = candidatesCount s', name = nm, voteCount = 0\<rparr>)"
    by (auto simp: addCandidate_Inr_iff unat_succ)
  have get: "candidatesCount s \<noteq> - 1 \<longrightarrow> getAllCandidates s = Inr (snapshot s)"
    by (simp add: getAllCandidates_snapshot)
  show ?thesis
    by (intro conjI) (rule ids none count names order len nth add get)+
qed

lemma snapshot_scenario_voted:
  "snapshot scenario_voted
     = [\<lparr>id_c = 1, name = ''Alice'', voteCount = 1\<rparr>, \<lparr>id_c = 2, name = ''Bob'', voteCount = 0\<rparr>]"
proof -
  have "[1..<Suc (unat (2 :: uint256))] = [1, 2]" by (simp add: upt_rec)
  then show ?thesis
    by (simp add: snapshot_def scenario_voted_def scenario_voting_def scenario_created_def)
qed

theorem candidate_ids_sequential_witness:
  "constructor_Election (tx_at 0 10) 10 ''Board'' ''Board election'' 100 200
     = Inr scenario_created
   \<and> scenario_voted = run (scenario_setup @ scenario_rest) scenario_created
   \<and> candidatesCount scenario_voted = 2
   \<and> added_names (history (scenario_setup @ scenario_rest) scenario_created)
       = [''Alice'', ''Bob'']
   \<and> getAllCandidates scenario_voted
       = Inr [\<lparr>id_c = 1, name = ''Alice'', voteCount = 1\<rparr>,
              \<lparr>id_c = 2, name = ''Bob'', voteCount = 0\<rparr>]"
proof -
  note c2 = conjunct2
  note inst = candidate_ids_sequential [OF scenario_created_ok run_scenario [symmetric] refl]
  have cnt: "candidatesCount scenario_voted = 2"
    by (simp add: scenario_voted_def scenario_voting_def)
  then have "candidatesCount scenario_voted \<noteq> - 1" by simp
  from inst [THEN c2, THEN c2, THEN c2, THEN c2, THEN c2, THEN c2, THEN c2, THEN c2,
      rule_format, OF this]
  have get: "getAllCandidates scenario_voted
       = Inr [\<lparr>id_c = 1, name = ''Alice'', voteCount = 1\<rparr>,
              \<lparr>id_c = 2, name = ''Bob'', voteCount = 0\<rparr>]"
    by (simp add: snapshot_scenario_voted)
  from inst [THEN c2, THEN c2, THEN c2, THEN conjunct1]
  have names: "added_names (history (scenario_setup @ scenario_rest) scenario_created)
       = [''Alice'', ''Bob'']"
    by (simp add: snapshot_scenario_voted)
  show ?thesis
    by (intro conjI) (rule scenario_created_ok run_scenario [symmetric] cnt names get)+
qed

section \<open>Tallies\<close>

lemma voters_for_Cons:
  "voters_for (t # h) k = (if snd t = Vote k then [msg_sender (fst t)] else []) @ voters_for h k"
  by (simp add: voters_for_def)

lemma voters_Cons:
  "voters (t # h) = (if is_Vote (snd t) then [msg_sender (fst t)] else []) @ voters h"
  by (simp add: voters_def)

lemma voters_for_subset: "set (voters_for h k) \<subseteq> set (voters h)"
  by (auto simp: voters_for_def voters_def)

lemma distinct_voters_for: "distinct (voters h) \<Longrightarrow> distinct (voters_for h k)"
proof (induction h)
  case Nil
  show ?case by (simp add: voters_for_def)
next
  case (Cons t h)
  then show ?case
    using voters_for_subset [of h k] by (auto simp: voters_for_Cons voters_Cons)
qed

lemma dispatch_tally:
  assumes "dispatch env c s = Inr s'" and "candidates_wf s"
  shows "unat (voteCount (candidates s' k))
       = unat (voteCount (candidates s k)) + (if c = Vote k then 1 else 0)"
proof (cases c)
  case (AddCandidate nm)
  with assms(1) have n: "candidatesCount s \<noteq> - 1"
    and s': "s' = s\<lparr>candidatesCount := candidatesCount s + 1,
             candidates := (candidates s)
               (candidatesCount s + 1 :=
                  \<lparr>id_c = candidatesCount s + 1, name = nm, voteCount = 0\<rparr>)\<rparr>"
    by (simp_all add: addCandidate_Inr_iff)
  from assms(2) succ_not_le_word [OF n]
  have "candidates s (candidatesCount s + 1) = zero_Candidate"
    unfolding candidates_wf_def by metis
  with AddCandidate show ?thesis by (simp add: s' zero_Candidate_def)
next
  case (Vote j)
  with assms(1) show ?thesis by (auto simp: vote_Inr_iff unat_succ)
qed (use assms in \<open>auto simp: startRegistration_def startVoting_def
        endElection_def registerVoter_def split: if_splits\<close>)

lemma run_tally:
  "candidates_wf s \<Longrightarrow>
     unat (voteCount (candidates (run txs s) k))
       = unat (voteCount (candidates s k)) + length (voters_for (history txs s) k)"
proof (induction txs arbitrary: s)
  case Nil
  show ?case by (simp add: voters_for_def)
next
  case (Cons t txs)
  show ?case
  proof (cases "dispatch (fst t) (snd t) s")
    case (Inl e)
    with Cons.IH [OF Cons.prems] show ?thesis by simp
  next
    case (Inr s')
    from Cons.IH [OF candidates_wf_dispatch [OF Inr Cons.prems]]
      dispatch_tally [OF Inr Cons.prems, of k] Inr
    show ?thesis by (simp add: voters_for_Cons)
  qed
qed

lemma dispatch_hasVoted:
  assumes "dispatch env c s = Inr s'"
  shows "hasVoted s' = (if is_Vote c then (hasVoted s)(msg_sender env := True) else hasVoted s)"
    and "is_Vote c \<Longrightarrow> \<not> hasVoted s (msg_sender env)"
  using assms
  by (cases c; auto simp: addCandidate_Inr_iff vote_Inr_iff startRegistration_def startVoting_def
        endElection_def registerVoter_def split: if_splits)+

lemma run_voters:
  "distinct (voters (history txs s))
   \<and> (\<forall>v. hasVoted (run txs s) v \<longleftrightarrow> hasVoted s v \<or> v \<in> set (voters (history txs s)))
   \<and> (\<forall>v \<in> set (voters (history txs s)). \<not> hasVoted s v)"
proof (induction txs arbitrary: s)
  case Nil
  show ?case by (simp add: voters_def)
next
  case (Cons t txs)
  show ?case
  proof (cases "dispatch (fst t) (snd t) s")
    case (Inl e)
    with Cons.IH [of s] show ?thesis by simp
  next
    case (Inr s')
    note h = dispatch_hasVoted [OF Inr]
    show ?thesis
    proof (cases "is_Vote (snd t)")
      case True
      let ?V = "voters (history txs s')"
      from True h have eq: "hasVoted s' v \<longleftrightarrow> v = msg_sender (fst t) \<or> hasVoted s v" for v
        by simp
      from True h have fresh: "\<not> hasVoted s (msg_sender (fst t))" by simp
      from Cons.IH [of s'] have d: "distinct ?V"
        and r: "hasVoted (run txs s') v \<longleftrightarrow> hasVoted s' v \<or> v \<in> set ?V"
        and n: "v \<in> set ?V \<Longrightarrow> \<not> hasVoted s' v" for v
        by blast+
      from n eq have new: "v \<in> set ?V \<Longrightarrow> v \<noteq> msg_sender (fst t) \<and> \<not> hasVoted s v" for v
        by blast
      have hist: "voters (history (t # txs) s) = msg_sender (fst t) # ?V"
        and fin: "run (t # txs) s = run txs s'"
        using Inr True by (simp_all add: voters_Cons)
      from d new have "distinct (msg_sender (fst t) # ?V)" by auto
      moreover from r eq
      have "\<forall>v. hasVoted (run txs s') v
          \<longleftrightarrow> hasVoted s v \<or> v \<in> set (msg_sender (fst t) # ?V)"
        by auto
      moreover from new fresh have "\<forall>v \<in> set (msg_sender (fst t) # ?V). \<not> hasVoted s v"
        by auto
      ultimately show ?thesis unfolding hist fin by blast
    next
      case False
      with h have "hasVoted s' = hasVoted s" by simp
      with Cons.IH [of s'] Inr False show ?thesis
        by (simp add: voters_Cons)
    qed
  qed
qed

lemma interval_succ_word:
  assumes "(n :: uint256) \<noteq> - 1"
  shows "{1..n + 1} = insert (n + 1) {1..n}" and "n + 1 \<notin> {1..n}"
  using le_succ_word [OF assms] one_le_succ_word [OF assms] succ_not_le_word [OF assms]
  by auto

lemma dispatch_sum:
  assumes "dispatch env c s = Inr s'"
  shows "(\<Sum>k\<in>{1..candidatesCount s'}. unat (voteCount (candidates s' k)))
       = (\<Sum>k\<in>{1..candidatesCount s}. unat (voteCount (candidates s k)))
         + (if is_Vote c then 1 else 0)"
proof (cases c)
  case (AddCandidate nm)
  with assms have n: "candidatesCount s \<noteq> - 1"
    and s': "s' = s\<lparr>candidatesCount := candidatesCount s + 1,
             candidates := (candidates s)
               (candidatesCount s + 1 :=
                  \<lparr>id_c = candidatesCount s + 1, name = nm, voteCount = 0\<rparr>)\<rparr>"
    by (simp_all add: addCandidate_Inr_iff)
  have "(\<Sum>k\<in>{1..candidatesCount s}. unat (voteCount (candidates s' k)))
      = (\<Sum>k\<in>{1..candidatesCount s}. unat (voteCount (candidates s k)))"
    using interval_succ_word(2) [OF n] by (intro sum.cong) (auto simp: s')
  with AddCandidate interval_succ_word [OF n] show ?thesis
    by (simp add: s')
next
  case (Vote j)
  with assms have j: "j \<in> {1..candidatesCount s}" and top: "voteCount (candidates s j) \<noteq> - 1"
    and s': "s' = s\<lparr>hasVoted := (hasVoted s)(msg_sender env := True),
             candidates := (candidates s)
               (j := (candidates s j)\<lparr>voteCount := voteCount (candidates s j) + 1\<rparr>)\<rparr>"
    by (simp_all add: vote_Inr_iff)
  let ?S = "{1..candidatesCount s}"
  have "(\<Sum>k\<in>?S. unat (voteCount (candidates s' k)))
      = unat (voteCount (candidates s' j))
        + (\<Sum>k\<in>?S - {j}. unat (voteCount (candidates s' k)))"
    using j by (intro sum.remove) simp_all
  also have "(\<Sum>k\<in>?S - {j}. unat (voteCount (candidates s' k)))
      = (\<Sum>k\<in>?S - {j}. unat (voteCount (candidates s k)))"
    by (intro sum.cong) (auto simp: s')
  also have "unat (voteCount (candidates s' j)) = unat (voteCount (candidates s j)) + 1"
    by (simp add: s' unat_succ [OF top])
  finally have "(\<Sum>k\<in>?S. unat (voteCount (candidates s' k)))
      = (unat (voteCount (candidates s j))
         + (\<Sum>k\<in>?S - {j}. unat (voteCount (candidates s k)))) + 1"
    by simp
  also have "unat (voteCount (candidates s j))
         + (\<Sum>k\<in>?S - {j}. unat (voteCount (candidates s k)))
      = (\<Sum>k\<in>?S. unat (voteCount (candidates s k)))"
    using j by (intro sum.remove [symmetric]) simp_all
  finally show ?thesis using Vote by (simp add: s')
qed (use assms in \<open>auto simp: startRegistration_def startVoting_def
        endElection_def registerVoter_def split: if_splits\<close>)

lemma run_sum:
  "(\<Sum>k\<in>{1..candidatesCount (run txs s)}. unat (voteCount (candidates (run txs s) k)))
     = (\<Sum>k\<in>{1..candidatesCount s}. unat (voteCount (candidates s k)))
       + length (filter (\<lambda>t. is_Vote (snd t)) (history txs s))"
proof (induction txs arbitrary: s)
  case Nil
  show ?case by simp
next
  case (Cons t txs)
  show ?case
  proof (cases "dispatch (fst t) (snd t) s")
    case (Inl e)
    with Cons.IH [of s] show ?thesis by simp
  next
    case (Inr s')
    from Cons.IH [of s'] dispatch_sum [OF Inr] Inr show ?thesis by simp
  qed
qed

text \<open>
  Claim C2, as the contract has it. In every reachable election state the tally of each
  candidate is the number of distinct voters whose successful \<^verbatim>\<open>vote\<close> call named that
  candidate's id (no voter succeeds twice, so this is also the number of such calls), and
  the tallies of the candidates 1 to \<^verbatim>\<open>candidatesCount\<close> add up to the number of
  successful \<^verbatim>\<open>vote\<close> calls. A further \<^verbatim>\<open>vote\<close> call of a voter who has voted always
  fails and changes nothing: with "Invalid phase" once the phase is no longer Voting,
  with "Voting window closed" outside the voting window, and with "Already voted"
  otherwise.
\<close>

theorem tallies_count_voters:
  assumes "constructor_Election env0 a t d rd vd = Inr s0"
    and "s = run txs s0" and "h = history txs s0"
  shows "(\<forall>k. unat (voteCount (candidates s k)) = card (set (voters_for h k)))
       \<and> (\<forall>k. card (set (voters_for h k)) = length (voters_for h k))
       \<and> distinct (voters h)
       \<and> (\<Sum>k\<in>{1..candidatesCount s}. unat (voteCount (candidates s k)))
           = length (filter (\<lambda>t. is_Vote (snd t)) h)
       \<and> (\<forall>v. hasVoted s v \<longleftrightarrow> v \<in> set (voters h))
       \<and> (\<forall>env c. msg_sender env \<in> set (voters h) \<longrightarrow>
             vote env c s
               = Inl (Revert
                   (if phase s \<noteq> Voting then ''Invalid phase''
                    else if \<not> (votingStart s \<le> block_timestamp env
                                \<and> block_timestamp env \<le> votingEnd s)
                      then ''Voting window closed''
                    else ''Already voted''))
           \<and> run [(env, Vote c)] s = s)"
proof -
  from assms(1) have init: "candidatesCount s0 = 0" "\<And>k. voteCount (candidates s0 k) = 0"
    "\<And>v. \<not> hasVoted s0 v" "\<And>v. \<not> isRegisteredVoter s0 v"
    by (simp_all add: constructor_Election_Inr_iff zero_Candidate_def)
  from run_voters [of txs s0] init(3)
  have d: "distinct (voters h)" and voted: "\<forall>v. hasVoted s v \<longleftrightarrow> v \<in> set (voters h)"
    by (simp_all add: assms(2,3))
  have each: "\<forall>k. card (set (voters_for h k)) = length (voters_for h k)"
    using distinct_voters_for [OF d] by (simp add: distinct_card)
  from run_tally [OF candidates_wf_init [OF assms(1)], of txs] init(2)
  have "\<forall>k. unat (voteCount (candidates s k)) = length (voters_for h k)"
    by (simp add: assms(2,3))
  with each have tally: "\<forall>k. unat (voteCount (candidates s k)) = card (set (voters_for h k))"
    by simp
  have "{1..candidatesCount s0} = {}" by (simp add: init(1))
  with run_sum [of txs s0]
  have total: "(\<Sum>k\<in>{1..candidatesCount s}. unat (voteCount (candidates s k)))
           = length (filter (\<lambda>t. is_Vote (snd t)) h)"
    by (simp add: assms(2,3))
  from run_voted_registered [of s0 txs] init(3)
  have reg: "\<forall>v. hasVoted s v \<longrightarrow> isRegisteredVoter s v"
    by (simp add: assms(2))
  have again: "\<forall>env c. msg_sender env \<in> set (voters h) \<longrightarrow>
             vote env c s
               = Inl (Revert
                   (if phase s \<noteq> Voting then ''Invalid phase''
                    else if \<not> (votingStart s \<le> block_timestamp env
                                \<and> block_timestamp env \<le> votingEnd s)
                      then ''Voting window closed''
                    else ''Already voted''))
           \<and> run [(env, Vote c)] s = s"
  proof (intro allI impI)
    fix env :: tx_env and c :: uint256
    assume "msg_sender env \<in> set (voters h)"
    with voted reg have "hasVoted s (msg_sender env)" "isRegisteredVoter s (msg_sender env)"
      by simp_all
    then show "vote env c s
               = Inl (Revert
                   (if phase s \<noteq> Voting then ''Invalid phase''
                    else if \<not> (votingStart s \<le> block_timestamp env
                                \<and> block_timestamp env \<le> votingEnd s)
                      then ''Voting window closed''
                    else ''Already voted''))
           \<and> run [(env, Vote c)] s = s"
      by (simp add: vote_def)
  qed
  show ?thesis
    by (intro conjI) (rule tally each d total voted again)+
qed

lemma scenario_one_vote_history:
  "history scenario_one_vote scenario_created = scenario_one_vote"
  by (simp add: scenario_one_vote_def scenario_setup_def scenario_created_def
      tx_at_def call_defs checked_add_def)

lemma scenario_one_vote_run:
  "run scenario_one_vote scenario_created
     = scenario_voted\<lparr>phase := Voting\<rparr>"
  by (simp add: scenario_one_vote_def scenario_setup_def scenario_created_def scenario_voted_def
      scenario_voting_def tx_at_def call_defs checked_add_def fun_upd_twist)

theorem tallies_count_voters_witness:
  "constructor_Election (tx_at 0 10) 10 ''Board'' ''Board election'' 100 200
     = Inr scenario_created
   \<and> voters (history scenario_one_vote scenario_created) = [21]
   \<and> msg_sender (tx_at 160 21) \<in> set (voters (history scenario_one_vote scenario_created))
   \<and> voteCount (candidates (run scenario_one_vote scenario_created) 1) = 1
   \<and> card (set (voters_for (history scenario_one_vote scenario_created) 1)) = 1
   \<and> vote (tx_at 160 21) 2 (run scenario_one_vote scenario_created)
       = Inl (Revert ''Already voted'')
   \<and> run [(tx_at 160 21, Vote 2)] (run scenario_one_vote scenario_created)
       = run scenario_one_vote scenario_created"
proof -
  note c2 = conjunct2
  note inst = tallies_count_voters [OF scenario_created_ok refl refl, of scenario_one_vote]
  have v: "voters (history scenario_one_vote scenario_created) = [21]"
    by (simp add: scenario_one_vote_history)
      (simp add: scenario_one_vote_def scenario_setup_def voters_def tx_at_def)
  then have m: "msg_sender (tx_at 160 21)
      \<in> set (voters (history scenario_one_vote scenario_created))"
    by (simp add: tx_at_def)
  have f: "voters_for (history scenario_one_vote scenario_created) 1 = [21]"
    by (simp add: scenario_one_vote_history)
      (simp add: scenario_one_vote_def scenario_setup_def voters_for_def tx_at_def)
  have one: "voteCount (candidates (run scenario_one_vote scenario_created) 1) = 1"
    by (simp add: scenario_one_vote_run scenario_voted_def)
  from inst [THEN conjunct1, rule_format, of 1] one
  have card: "card (set (voters_for (history scenario_one_vote scenario_created) 1)) = 1"
    by simp
  note second = inst [THEN c2, THEN c2, THEN c2, THEN c2, THEN c2, rule_format, OF m, of 2]
  have now: "phase (run scenario_one_vote scenario_created) = Voting"
    "votingStart (run scenario_one_vote scenario_created) \<le> block_timestamp (tx_at 160 21)"
    "block_timestamp (tx_at 160 21) \<le> votingEnd (run scenario_one_vote scenario_created)"
    unfolding scenario_one_vote_run
    by (simp_all add: scenario_voted_def scenario_voting_def scenario_created_def tx_at_def)
  from second [THEN conjunct1] now
  have again: "vote (tx_at 160 21) 2 (run scenario_one_vote scenario_created)
       = Inl (Revert ''Already voted'')"
    by simp
  note same = second [THEN conjunct2]
  show ?thesis
    by (intro conjI) (rule scenario_created_ok v m one card again same)+
qed

theorem second_vote_after_end_counterexample:
  "constructor_Election (tx_at 0 10) 10 ''Board'' ''Board election'' 100 200
     = Inr scenario_created
   \<and> run (scenario_setup @ scenario_rest) scenario_created = scenario_voted
   \<and> hasVoted scenario_voted 21
   \<and> vote (tx_at 250 21) 1 scenario_voted = Inl (Revert ''Invalid phase'')
   \<and> vote (tx_at 250 21) 1 scenario_voted \<noteq> Inl (Revert ''Already voted'')
   \<and> vote (tx_at 301 21) 1 (scenario_voted\<lparr>phase := Voting\<rparr>)
       = Inl (Revert ''Voting window closed'')"
  using scenario_created_ok run_scenario
  by (simp add: scenario_voted_def scenario_voting_def scenario_created_def tx_at_def vote_def)

section \<open>Casting a vote\<close>

text \<open>
  A tally counts distinct addresses, of which there are \<open>2 ^ 160\<close>: in a reachable state
  the checked increment of \<^verbatim>\<open>vote\<close> cannot overflow.
\<close>

lemma reachable_tally_bound:
  assumes "reachable s"
  shows "unat (voteCount (candidates s k)) \<le> 2 ^ 160"
    and "voteCount (candidates s k) \<noteq> - 1"
proof -
  from assms obtain env a t d rd vd s0 txs where
    c: "constructor_Election env a t d rd vd = Inr s0" and s: "s = run txs s0"
    unfolding reachable_def by blast
  from c have zero: "voteCount (candidates s0 k) = 0" "\<And>v. \<not> hasVoted s0 v"
    by (simp_all add: constructor_Election_Inr_iff zero_Candidate_def)
  from run_tally [OF candidates_wf_init [OF c], of txs k] zero(1)
  have "unat (voteCount (candidates s k)) = length (voters_for (history txs s0) k)"
    by (simp add: s)
  also have "\<dots> = card (set (voters_for (history txs s0) k))"
    using run_voters [of txs s0] distinct_voters_for [of "history txs s0" k]
    by (simp add: distinct_card)
  also have "\<dots> \<le> card (UNIV :: address set)"
    by (intro card_mono) simp_all
  also have "\<dots> = 2 ^ 160" by (simp add: card_word)
  finally show le: "unat (voteCount (candidates s k)) \<le> 2 ^ 160" .
  show "voteCount (candidates s k) \<noteq> - 1"
  proof
    assume "voteCount (candidates s k) = - 1"
    with le have "(2 :: nat) ^ 256 - 1 \<le> 2 ^ 160" by (simp add: unat_uint256_max)
    then show False by simp
  qed
qed

text \<open>
  Claim C1. For every caller and candidate id, \<^verbatim>\<open>vote\<close> checks, in this order, that the
  phase is Voting (else it reverts with "Invalid phase"), that the block time lies in the
  closed interval from \<^verbatim>\<open>votingStart\<close> to \<^verbatim>\<open>votingEnd\<close> (else "Voting window closed"),
  that the caller is registered (else "Not registered voter"), that the caller has not
  voted (else "Already voted") and that the id lies between 1 and \<^verbatim>\<open>candidatesCount\<close>
  (else "Invalid candidate"). It succeeds only when all five hold, and does so whenever
  the tally is not at the top of \<^verbatim>\<open>uint256\<close>, hence in every reachable state in
  which they hold. A successful call sets the caller's
  \<^verbatim>\<open>hasVoted\<close> flag, adds exactly 1 to the tally of that candidate and changes nothing
  else; as a transaction it applies both effects or leaves the storage as it was.
\<close>

theorem vote_guards_and_effect:
  "(phase s \<noteq> Voting \<longrightarrow> vote env c s = Inl (Revert ''Invalid phase''))
   \<and> (phase s = Voting
        \<and> \<not> (votingStart s \<le> block_timestamp env \<and> block_timestamp env \<le> votingEnd s)
      \<longrightarrow> vote env c s = Inl (Revert ''Voting window closed''))
   \<and> (phase s = Voting
        \<and> votingStart s \<le> block_timestamp env \<and> block_timestamp env \<le> votingEnd s
        \<and> \<not> isRegisteredVoter s (msg_sender env)
      \<longrightarrow> vote env c s = Inl (Revert ''Not registered voter''))
   \<and> (phase s = Voting
        \<and> votingStart s \<le> block_timestamp env \<and> block_timestamp env \<le> votingEnd s
        \<and> isRegisteredVoter s (msg_sender env) \<and> hasVoted s (msg_sender env)
      \<longrightarrow> vote env c s = Inl (Revert ''Already voted''))
   \<and> (phase s = Voting
        \<and> votingStart s \<le> block_timestamp env \<and> block_timestamp env \<le> votingEnd s
        \<and> isRegisteredVoter s (msg_sender env) \<and> \<not> hasVoted s (msg_sender env)
        \<and> \<not> (1 \<le> c \<and> c \<le> candidatesCount s)
      \<longrightarrow> vote env c s = Inl (Revert ''Invalid candidate''))
   \<and> (\<forall>s'. vote env c s = Inr s' \<longrightarrow>
          phase s = Voting
        \<and> votingStart s \<le> block_timestamp env \<and> block_timestamp env \<le> votingEnd s
        \<and> isRegisteredVoter s (msg_sender env) \<and> \<not> hasVoted s (msg_sender env)
        \<and> 1 \<le> c \<and> c \<le> candidatesCount s
        \<and> hasVoted s' = (hasVoted s)(msg_sender env := True)
        \<and> unat (voteCount (candidates s' c)) = unat (voteCount (candidates s c)) + 1
        \<and> id_c (candidates s' c) = id_c (candidates s c)
        \<and> name (candidates s' c) = name (candidates s c)
        \<and> (\<forall>k. k \<noteq> c \<longrightarrow> candidates s' k = candidates s k)
        \<and> s' = s\<lparr>hasVoted := hasVoted s', candidates := candidates s'\<rparr>)
   \<and> (phase s = Voting
        \<and> votingStart s \<le> block_timestamp env \<and> block_timestamp env \<le> votingEnd s
        \<and> isRegisteredVoter s (msg_sender env) \<and> \<not> hasVoted s (msg_sender env)
        \<and> 1 \<le> c \<and> c \<le> candidatesCount s
        \<and> voteCount (candidates s c) \<noteq> - 1
      \<longrightarrow> (\<exists>s'. vote env c s = Inr s'))
   \<and> (reachable s \<and> phase s = Voting
        \<and> votingStart s \<le> block_timestamp env \<and> block_timestamp env \<le> votingEnd s
        \<and> isRegisteredVoter s (msg_sender env) \<and> \<not> hasVoted s (msg_sender env)
        \<and> 1 \<le> c \<and> c \<le> candidatesCount s
      \<longrightarrow> (\<exists>s'. vote env c s = Inr s'))
   \<and> (run [(env, Vote c)] s = s
        \<or> hasVoted (run [(env, Vote c)] s) (msg_sender env)
          \<and> unat (voteCount (candidates (run [(env, Vote c)] s) c))
              = unat (voteCount (candidates s c)) + 1)"
proof -
  have errs: "phase s \<noteq> Voting \<longrightarrow> vote env c s = Inl (Revert ''Invalid phase'')"
    "phase s = Voting
        \<and> \<not> (votingStart s \<le> block_timestamp env \<and> block_timestamp env \<le> votingEnd s)
      \<longrightarrow> vote env c s = Inl (Revert ''Voting window closed'')"
    "phase s = Voting
        \<and> votingStart s \<le> block_timestamp env \<and> block_timestamp env \<le> votingEnd s
        \<and> \<not> isRegisteredVoter s (msg_sender env)
      \<longrightarrow> vote env c s = Inl (Revert ''Not registered voter'')"
    "phase s = Voting
        \<and> votingStart s \<le> block_timestamp env \<and> block_timestamp env \<le> votingEnd s
        \<and> isRegisteredVoter s (msg_sender env) \<and> hasVoted s (msg_sender env)
      \<longrightarrow> vote env c s = Inl (Revert ''Already voted'')"
    "phase s = Voting
        \<and> votingStart s \<le> block_timestamp env \<and> block_timestamp env \<le> votingEnd s
        \<and> isRegisteredVoter s (msg_sender env) \<and> \<not> hasVoted s (msg_sender env)
        \<and> \<not> (1 \<le> c \<and> c \<le> candidatesCount s)
      \<longrightarrow> vote env c s = Inl (Revert ''Invalid candidate'')"
    by (auto simp: vote_def one_le_word_iff)
  have succ: "\<forall>s'. vote env c s = Inr s' \<longrightarrow>
          phase s = Voting
        \<and> votingStart s \<le> block_timestamp env \<and> block_timestamp env \<le> votingEnd s
        \<and> isRegisteredVoter s (msg_sender env) \<and> \<not> hasVoted s (msg_sender env)
        \<and> 1 \<le> c \<and> c \<le> candidatesCount s
        \<and> hasVoted s' = (hasVoted s)(msg_sender env := True)
        \<and> unat (voteCount (candidates s' c)) = unat (voteCount (candidates s c)) + 1
        \<and> id_c (candidates s' c) = id_c (candidates s c)
        \<and> name (candidates s' c) = name (candidates s c)
        \<and> (\<forall>k. k \<noteq> c \<longrightarrow> candidates s' k = candidates s k)
        \<and> s' = s\<lparr>hasVoted := hasVoted s', candidates := candidates s'\<rparr>"
    by (auto simp: vote_Inr_iff unat_succ)
  have enough: "phase s = Voting
        \<and> votingStart s \<le> block_timestamp env \<and> block_timestamp env \<le> votingEnd s
        \<and> isRegisteredVoter s (msg_sender env) \<and> \<not> hasVoted s (msg_sender env)
        \<and> 1 \<le> c \<and> c \<le> candidatesCount s
        \<and> voteCount (candidates s c) \<noteq> - 1
      \<longrightarrow> (\<exists>s'. vote env c s = Inr s')"
    by (simp add: vote_Inr_iff)
  have live: "reachable s \<and> phase s = Voting
        \<and> votingStart s \<le> block_timestamp env \<and> block_timestamp env \<le> votingEnd s
        \<and> isRegisteredVoter s (msg_sender env) \<and> \<not> hasVoted s (msg_sender env)
        \<and> 1 \<le> c \<and> c \<le> candidatesCount s
      \<longrightarrow> (\<exists>s'. vote env c s = Inr s')"
    using reachable_tally_bound(2) [of s c] by (simp add: vote_Inr_iff)
  have atomic: "run [(env, Vote c)] s = s
        \<or> hasVoted (run [(env, Vote c)] s) (msg_sender env)
          \<and> unat (voteCount (candidates (run [(env, Vote c)] s) c))
              = unat (voteCount (candidates s c)) + 1"
  proof (cases "vote env c s")
    case (Inl e)
    then show ?thesis by simp
  next
    case (Inr s')
    with succ show ?thesis by simp
  qed
  show ?thesis
    by (intro conjI) (rule errs succ enough live atomic)+
qed

theorem vote_guards_and_effect_witness:
  "reachable scenario_voting \<and> phase scenario_voting = Voting
   \<and> votingStart scenario_voting \<le> block_timestamp (tx_at 150 21)
   \<and> block_timestamp (tx_at 150 21) \<le> votingEnd scenario_voting
   \<and> isRegisteredVoter scenario_voting (msg_sender (tx_at 150 21))
   \<and> \<not> hasVoted scenario_voting (msg_sender (tx_at 150 21))
   \<and> (1 :: uint256) \<le> 1 \<and> 1 \<le> candidatesCount scenario_voting
   \<and> (\<exists>s'. vote (tx_at 150 21) 1 scenario_voting = Inr s'
        \<and> hasVoted s' = (hasVoted scenario_voting)(msg_sender (tx_at 150 21) := True)
        \<and> unat (voteCount (candidates s' 1))
            = unat (voteCount (candidates scenario_voting 1)) + 1)
   \<and> phase (scenario_voting\<lparr>phase := Ended\<rparr>) \<noteq> Voting
   \<and> vote (tx_at 150 21) 1 (scenario_voting\<lparr>phase := Ended\<rparr>) = Inl (Revert ''Invalid phase'')
   \<and> vote (tx_at 301 21) 1 scenario_voting = Inl (Revert ''Voting window closed'')
   \<and> vote (tx_at 150 22) 1 scenario_voting = Inl (Revert ''Not registered voter'')
   \<and> vote (tx_at 150 21) 9 scenario_voting = Inl (Revert ''Invalid candidate'')"
proof -
  note c2 = conjunct2
  note defs = scenario_voting_def scenario_created_def tx_at_def
  note good = vote_guards_and_effect [of scenario_voting "tx_at 150 21" 1]
  have pre: "phase scenario_voting = Voting"
    "votingStart scenario_voting \<le> block_timestamp (tx_at 150 21)"
    "block_timestamp (tx_at 150 21) \<le> votingEnd scenario_voting"
    "isRegisteredVoter scenario_voting (msg_sender (tx_at 150 21))"
    "\<not> hasVoted scenario_voting (msg_sender (tx_at 150 21))"
    "(1 :: uint256) \<le> 1" "1 \<le> candidatesCount scenario_voting"
    by (simp_all add: defs)
  from good [THEN c2, THEN c2, THEN c2, THEN c2, THEN c2, THEN c2, THEN c2, THEN conjunct1]
    reachable_scenario_voting pre
  obtain s' where ok: "vote (tx_at 150 21) 1 scenario_voting = Inr s'" by blast
  from good [THEN c2, THEN c2, THEN c2, THEN c2, THEN c2, THEN conjunct1, rule_format, OF ok]
  have eff: "hasVoted s' = (hasVoted scenario_voting)(msg_sender (tx_at 150 21) := True)"
    "unat (voteCount (candidates s' 1)) = unat (voteCount (candidates scenario_voting 1)) + 1"
    by blast+
  with ok have success: "\<exists>s'. vote (tx_at 150 21) 1 scenario_voting = Inr s'
        \<and> hasVoted s' = (hasVoted scenario_voting)(msg_sender (tx_at 150 21) := True)
        \<and> unat (voteCount (candidates s' 1))
            = unat (voteCount (candidates scenario_voting 1)) + 1"
    by blast
  have ended: "phase (scenario_voting\<lparr>phase := Ended\<rparr>) \<noteq> Voting" by simp
  note e1 = vote_guards_and_effect [of "scenario_voting\<lparr>phase := Ended\<rparr>" "tx_at 150 21" 1,
      THEN conjunct1, rule_format, OF ended]
  have "phase scenario_voting = Voting
      \<and> \<not> (votingStart scenario_voting \<le> block_timestamp (tx_at 301 21)
            \<and> block_timestamp (tx_at 301 21) \<le> votingEnd scenario_voting)"
    by (simp add: defs)
  note e2 = vote_guards_and_effect [of scenario_voting "tx_at 301 21" 1,
      THEN c2, THEN conjunct1, rule_format, OF this]
  have "phase scenario_voting = Voting
      \<and> votingStart scenario_voting \<le> block_timestamp (tx_at 150 22)
      \<and> block_timestamp (tx_at 150 22) \<le> votingEnd scenario_voting
      \<and> \<not> isRegisteredVoter scenario_voting (msg_sender (tx_at 150 22))"
    by (simp add: defs)
  note e3 = vote_guards_and_effect [of scenario_voting "tx_at 150 22" 1,
      THEN c2, THEN c2, THEN conjunct1, rule_format, OF this]
  have "phase scenario_voting = Voting
      \<and> votingStart scenario_voting \<le> block_timestamp (tx_at 150 21)
      \<and> block_timestamp (tx_at 150 21) \<le> votingEnd scenario_voting
      \<and> isRegisteredVoter scenario_voting (msg_sender (tx_at 150 21))
      \<and> \<not> hasVoted scenario_voting (msg_sender (tx_at 150 21))
      \<and> \<not> (1 \<le> (9 :: uint256) \<and> 9 \<le> candidatesCount scenario_voting)"
    by (simp add: defs)
  note e5 = vote_guards_and_effect [of scenario_voting "tx_at 150 21" 9,
      THEN c2, THEN c2, THEN c2, THEN c2, THEN conjunct1, rule_format, OF this]
  show ?thesis
    by (intro conjI) (rule reachable_scenario_voting pre success ended e1 e2 e3 e5)+
qed

end
